theory Spec2Isabelle
  imports Complex_Main "HOL-Library.Sublist"
begin

section \<open>Text: characters, whitespace, case\<close>

text \<open>
  A Python \<open>str\<close> is modelled as a \<open>string\<close> whose characters are read as the code
  points 0 to 255. The character classes below are Python's own on that range.
\<close>

definition code :: "char \<Rightarrow> nat" where
  "code c = of_char c"

text \<open>
  \<open>str.isspace\<close>, which is also the class \<open>\s\<close> of \<open>re\<close> and the separators of
  \<open>str.split()\<close> and \<open>str.strip()\<close>: the code points 9 to 13, 28 to 32, 133 and 160.
\<close>

definition whitespace_chars :: string where
  "whitespace_chars =
     [CHR 0x09, CHR 0x0A, CHR 0x0B, CHR 0x0C, CHR 0x0D, CHR 0x1C, CHR 0x1D, CHR 0x1E,
      CHR 0x1F, CHR 0x20, CHR 0x85, CHR 0xA0]"

definition is_space :: "char \<Rightarrow> bool" where
  "is_space c = (c \<in> set whitespace_chars)"

text \<open>The class \<open>\w\<close> of \<open>re\<close>: the alphanumeric characters and the underscore.\<close>

definition is_word_char :: "char \<Rightarrow> bool" where
  "is_word_char c =
     ((48 \<le> code c \<and> code c \<le> 57) \<or> (65 \<le> code c \<and> code c \<le> 90) \<or> code c = 95
      \<or> (97 \<le> code c \<and> code c \<le> 122)
      \<or> code c = 170 \<or> code c = 178 \<or> code c = 179 \<or> code c = 181 \<or> code c = 185
      \<or> code c = 186 \<or> (188 \<le> code c \<and> code c \<le> 190)
      \<or> (192 \<le> code c \<and> code c \<le> 214) \<or> (216 \<le> code c \<and> code c \<le> 246)
      \<or> 248 \<le> code c)"

text \<open>
  \<open>str.lower\<close>: the cased characters below 256 are \<open>A\<close> to \<open>Z\<close> and the code points
  192 to 214 and 216 to 222; the lower-case form of each is 32 further on.
\<close>

definition upper_chars :: string where
  "upper_chars =
     ''ABCDEFGHIJKLMNOPQRSTUVWXYZ'' @
     [CHR 0xC0, CHR 0xC1, CHR 0xC2, CHR 0xC3, CHR 0xC4, CHR 0xC5, CHR 0xC6, CHR 0xC7,
      CHR 0xC8, CHR 0xC9, CHR 0xCA, CHR 0xCB, CHR 0xCC, CHR 0xCD, CHR 0xCE, CHR 0xCF,
      CHR 0xD0, CHR 0xD1, CHR 0xD2, CHR 0xD3, CHR 0xD4, CHR 0xD5, CHR 0xD6,
      CHR 0xD8, CHR 0xD9, CHR 0xDA, CHR 0xDB, CHR 0xDC, CHR 0xDD, CHR 0xDE]"

definition lower_char :: "char \<Rightarrow> char" where
  "lower_char c = (if c \<in> set upper_chars then char_of (code c + 32) else c)"

definition lower :: "string \<Rightarrow> string" where
  "lower s = map lower_char s"

definition apostrophe :: char where
  "apostrophe = CHR 0x27"

text \<open>\<open>str.strip()\<close>: whitespace is dropped at both ends.\<close>

definition strip :: "string \<Rightarrow> string" where
  "strip s = rev (dropWhile is_space (rev (dropWhile is_space s)))"

text \<open>
  \<open>str.split()\<close> with no argument: the maximal runs of non-whitespace characters, in
  order; no empty word is ever produced.
\<close>

function split_py :: "string \<Rightarrow> string list" where
  "split_py [] = []"
| "split_py (c # cs) =
     (if is_space c then split_py cs
      else takeWhile (\<lambda>x. \<not> is_space x) (c # cs)
           # split_py (dropWhile (\<lambda>x. \<not> is_space x) cs))"
  by pat_completeness auto
termination
  by (relation "measure length") (auto simp: length_dropWhile_le less_Suc_eq_le)

text \<open>\<open>' '.join(words)\<close>.\<close>

fun join_sp :: "string list \<Rightarrow> string" where
  "join_sp [] = []"
| "join_sp [w] = w"
| "join_sp (w # v # ws) = w @ CHR '' '' # join_sp (v # ws)"

text \<open>
  \<open>re.sub(r'\s+', ' ', text)\<close>: every maximal run of whitespace becomes one space.
\<close>

function collapse_ws :: "string \<Rightarrow> string" where
  "collapse_ws [] = []"
| "collapse_ws (c # cs) =
     (if is_space c then CHR '' '' # collapse_ws (dropWhile is_space cs)
      else c # collapse_ws cs)"
  by pat_completeness auto
termination
  by (relation "measure length") (auto simp: length_dropWhile_le less_Suc_eq_le)

text \<open>
  \<open>str.replace(old, new)\<close>: the occurrences of \<open>old\<close> are found from left to right
  without overlap. For an empty \<open>old\<close> Python puts \<open>new\<close> before every character and
  at the end.
\<close>

function replace_py :: "string \<Rightarrow> string \<Rightarrow> string \<Rightarrow> string" where
  "replace_py old new [] = (if old = [] then new else [])"
| "replace_py old new (c # cs) =
     (if old = [] then new @ c # replace_py old new cs
      else if prefix old (c # cs) then new @ replace_py old new (drop (length old - 1) cs)
      else c # replace_py old new cs)"
  by pat_completeness auto
termination
  by (relation "measure (\<lambda>(old, new, s). length s)") auto

section \<open>TextNormalizer (src/comparator/normalizer.py)\<close>

record TextNormalizer =
  lowercase :: bool
  remove_punctuation :: bool
  collapse_whitespace :: bool
  numbers_to_words :: bool
  expand_contractions :: bool

text \<open>The constructor's default arguments.\<close>

definition default_normalizer :: TextNormalizer where
  "default_normalizer =
     \<lparr>lowercase = True, remove_punctuation = True, collapse_whitespace = True,
      numbers_to_words = False, expand_contractions = True\<rparr>"

text \<open>The table \<open>self.contractions\<close>, in its insertion order.\<close>

definition contractions :: "(string \<times> string) list" where
  "contractions =
     [(''won'' @ [apostrophe] @ ''t'', ''will not''),
      (''can'' @ [apostrophe] @ ''t'', ''cannot''),
      (''n'' @ [apostrophe] @ ''t'', '' not''),
      ([apostrophe] @ ''re'', '' are''),
      ([apostrophe] @ ''s'', '' is''),
      ([apostrophe] @ ''d'', '' would''),
      ([apostrophe] @ ''ll'', '' will''),
      ([apostrophe] @ ''ve'', '' have''),
      ([apostrophe] @ ''m'', '' am'')]"

definition NUMBER_WORDS :: "char \<Rightarrow> string option" where
  "NUMBER_WORDS c =
     (if c = CHR ''0'' then Some ''zero'' else if c = CHR ''1'' then Some ''one''
      else if c = CHR ''2'' then Some ''two'' else if c = CHR ''3'' then Some ''three''
      else if c = CHR ''4'' then Some ''four'' else if c = CHR ''5'' then Some ''five''
      else if c = CHR ''6'' then Some ''six'' else if c = CHR ''7'' then Some ''seven''
      else if c = CHR ''8'' then Some ''eight'' else if c = CHR ''9'' then Some ''nine''
      else None)"

definition expand_contractions_text :: "string \<Rightarrow> string" where
  "expand_contractions_text text =
     foldl (\<lambda>t (contraction, expansion). replace_py contraction expansion t) text contractions"

definition numbers_to_words_text :: "string \<Rightarrow> string" where
  "numbers_to_words_text text =
     concat (map (\<lambda>c. case NUMBER_WORDS c of Some w \<Rightarrow> w | None \<Rightarrow> [c]) text)"

text \<open>
  \<open>re.sub(r"[^\w\s']", ' ', text)\<close>: each character that is neither a word character,
  nor whitespace, nor an apostrophe becomes a space.
\<close>

definition sweep_punctuation :: "string \<Rightarrow> string" where
  "sweep_punctuation text =
     map (\<lambda>c. if is_word_char c \<or> is_space c \<or> c = apostrophe then c else CHR '' '') text"

text \<open>
  \<open>re.sub(r"\s+'|'\s+", ' ', text)\<close>. The scan goes from left to right; at a position
  the first alternative matches when a run of whitespace starting there is followed by an
  apostrophe, the second when an apostrophe is followed by whitespace (all of which it
  takes); the match becomes one space and the scan goes on after it. Where neither
  matches, the character is kept.
\<close>

function remove_apostrophes :: "string \<Rightarrow> string" where
  "remove_apostrophes [] = []"
| "remove_apostrophes (c # cs) =
     (if is_space c then
        (case dropWhile is_space cs of
           [] \<Rightarrow> c # remove_apostrophes cs
         | q # rest \<Rightarrow>
             if q = apostrophe then CHR '' '' # remove_apostrophes rest
             else c # remove_apostrophes cs)
      else if c = apostrophe then
        (case cs of
           [] \<Rightarrow> c # remove_apostrophes cs
         | d # ds \<Rightarrow>
             if is_space d then CHR '' '' # remove_apostrophes (dropWhile is_space ds)
             else c # remove_apostrophes cs)
      else c # remove_apostrophes cs)"
  by pat_completeness auto
termination
proof (relation "measure length", goal_cases)
  case 1
  show ?case by simp
next
  case (2 c cs)
  show ?case by simp
next
  case (3 c cs q rest)
  have "length (dropWhile is_space cs) \<le> length cs"
    by (rule length_dropWhile_le)
  with 3 show ?case by simp
next
  case (4 c cs q rest)
  show ?case by simp
next
  case (5 c cs)
  show ?case by simp
next
  case (6 c cs d ds)
  have "length (dropWhile is_space ds) \<le> length ds"
    by (rule length_dropWhile_le)
  with 6 show ?case by simp
next
  case (7 c cs d ds)
  show ?case by simp
next
  case (8 c cs)
  show ?case by simp
qed

definition remove_punctuation_text :: "string \<Rightarrow> string" where
  "remove_punctuation_text text = remove_apostrophes (sweep_punctuation text)"

definition normalize_text :: "TextNormalizer \<Rightarrow> string \<Rightarrow> string" where
  "normalize_text cfg text =
     (if text = [] then []
      else
        let t1 = (if lowercase cfg then lower text else text);
            t2 = (if expand_contractions cfg then expand_contractions_text t1 else t1);
            t3 = (if numbers_to_words cfg then numbers_to_words_text t2 else t2);
            t4 = (if remove_punctuation cfg then remove_punctuation_text t3 else t3)
        in if collapse_whitespace cfg then strip (collapse_ws t4) else t4)"

definition normalize_pair :: "TextNormalizer \<Rightarrow> string \<Rightarrow> string \<Rightarrow> string \<times> string" where
  "normalize_pair cfg text1 text2 = (normalize_text cfg text1, normalize_text cfg text2)"

text \<open>Python's \<open>needle in text\<close> on strings.\<close>

fun contains_str :: "string \<Rightarrow> string \<Rightarrow> bool" where
  "contains_str needle [] = (needle = [])"
| "contains_str needle (c # cs) = (prefix needle (c # cs) \<or> contains_str needle cs)"

section \<open>Edit distance and the jiwer entry points\<close>

text \<open>
  The package \<open>jiwer\<close> is a library the calculators import. Its two entry points are
  modelled as the library documents them: the texts are turned into sequences (words for
  \<open>wer\<close>, characters for \<open>cer\<close>), the sequences are aligned with unit costs, and the
  rate is the number of substitutions, deletions and insertions of a cheapest alignment
  over the length of the reference sequence. An empty reference sequence makes the
  library raise, which is the value \<open>None\<close> here.
\<close>

fun levenshtein :: "'a list \<Rightarrow> 'a list \<Rightarrow> nat" where
  "levenshtein [] ys = length ys"
| "levenshtein (x # xs) [] = Suc (length xs)"
| "levenshtein (x # xs) (y # ys) =
     min (levenshtein xs ys + (if x = y then 0 else 1))
         (min (levenshtein xs (y # ys) + 1) (levenshtein (x # xs) ys + 1))"

text \<open>\<open>RemoveMultipleSpaces\<close>: \<open>re.sub(r"\s\s+", " ", s)\<close>, two or more whitespace
  characters in a row become one space; a single one is kept as it is.\<close>

function remove_multiple_spaces :: "string \<Rightarrow> string" where
  "remove_multiple_spaces [] = []"
| "remove_multiple_spaces [c] = [c]"
| "remove_multiple_spaces (c # d # ds) =
     (if is_space c \<and> is_space d then CHR '' '' # remove_multiple_spaces (dropWhile is_space ds)
      else c # remove_multiple_spaces (d # ds))"
  by pat_completeness auto
termination
  by (relation "measure length") (auto simp: length_dropWhile_le less_Suc_eq_le le_SucI)

text \<open>\<open>ReduceToListOfListOfWords\<close>: \<open>s.split(" ")\<close> without the empty pieces.\<close>

function split_on_space :: "string \<Rightarrow> string list" where
  "split_on_space [] = []"
| "split_on_space (c # cs) =
     (if c = CHR '' '' then split_on_space cs
      else takeWhile (\<lambda>x. x \<noteq> CHR '' '') (c # cs)
           # split_on_space (dropWhile (\<lambda>x. x \<noteq> CHR '' '') cs))"
  by pat_completeness auto
termination
  by (relation "measure length") (auto simp: length_dropWhile_le less_Suc_eq_le)

definition jiwer_words :: "string \<Rightarrow> string list" where
  "jiwer_words s = split_on_space (strip (remove_multiple_spaces s))"

definition jiwer_chars :: "string \<Rightarrow> string" where
  "jiwer_chars s = strip s"

definition error_rate :: "'a list \<Rightarrow> 'a list \<Rightarrow> real option" where
  "error_rate r h =
     (if r = [] then None else Some (real (levenshtein r h) / real (length r)))"

definition calculate_wer :: "string \<Rightarrow> string \<Rightarrow> real option" where
  "calculate_wer reference hypothesis =
     error_rate (jiwer_words reference) (jiwer_words hypothesis)"

definition calculate_cer :: "string \<Rightarrow> string \<Rightarrow> real option" where
  "calculate_cer reference hypothesis =
     error_rate (jiwer_chars reference) (jiwer_chars hypothesis)"

section \<open>WERCalculator and CERCalculator (src/comparator/wer.py, cer.py)\<close>

record WERCalculator =
  wer_normalizer :: "TextNormalizer option"

record CERCalculator =
  cer_normalizer :: "TextNormalizer option"

definition WERCalculator_init :: "bool \<Rightarrow> WERCalculator" where
  "WERCalculator_init normalize_flag =
     \<lparr>wer_normalizer = (if normalize_flag then Some default_normalizer else None)\<rparr>"

definition CERCalculator_init :: "bool \<Rightarrow> CERCalculator" where
  "CERCalculator_init normalize_flag =
     \<lparr>cer_normalizer = (if normalize_flag then Some default_normalizer else None)\<rparr>"

text \<open>
  The shared body of both \<open>calculate\<close> methods: the optional normalization, the two
  tests for empty texts, then the library's rate, clamped; an exception of the library
  is caught and gives 1.
\<close>

definition normalized_pair :: "TextNormalizer option \<Rightarrow> string \<Rightarrow> string \<Rightarrow> string \<times> string" where
  "normalized_pair n text1 text2 =
     (case n of Some cfg \<Rightarrow> normalize_pair cfg text1 text2 | None \<Rightarrow> (text1, text2))"

definition WER_calculate :: "WERCalculator \<Rightarrow> string \<Rightarrow> string \<Rightarrow> real" where
  "WER_calculate calc reference hypothesis =
     (let (r, h) = normalized_pair (wer_normalizer calc) reference hypothesis
      in if strip r = [] then (if strip h = [] then 0 else 1)
         else if strip h = [] then 1
         else (case calculate_wer r h of
                 Some rate \<Rightarrow> min 1 (max 0 rate)
               | None \<Rightarrow> 1))"

definition CER_calculate :: "CERCalculator \<Rightarrow> string \<Rightarrow> string \<Rightarrow> real" where
  "CER_calculate calc reference hypothesis =
     (let (r, h) = normalized_pair (cer_normalizer calc) reference hypothesis
      in if strip r = [] then (if strip h = [] then 0 else 1)
         else if strip h = [] then 1
         else (case calculate_cer r h of
                 Some rate \<Rightarrow> min 1 (max 0 rate)
               | None \<Rightarrow> 1))"

section \<open>SemanticSimilarity (src/comparator/semantic.py)\<close>

text \<open>
  The sentence-embedding library is outside the repository and is a parameter:
  \<open>constructible\<close> says whether \<open>SentenceTransformer(...)\<close> can be built (with or
  without the token), and \<open>cosine\<close> is \<open>encode\<close> followed by \<open>util.cos_sim\<close> on the
  two texts, \<open>None\<close> when either raises.
\<close>

record backend =
  constructible :: bool
  cosine :: "string \<Rightarrow> string \<Rightarrow> real option"

datatype error = ValueError | BackendError

text \<open>
  \<open>model_loaded\<close> is \<open>self._model is not None\<close>. \<open>encode_calls\<close> is not a field of the
  source: it records the arguments of every call of \<open>self._model.encode\<close>, so that what
  is sent to the model can be stated.
\<close>

record SemanticSimilarity =
  sem_normalizer :: "TextNormalizer option"
  model_loaded :: bool
  encode_calls :: "(string \<times> string) list"

definition SemanticSimilarity_init :: "bool \<Rightarrow> SemanticSimilarity" where
  "SemanticSimilarity_init normalize_flag =
     \<lparr>sem_normalizer = (if normalize_flag then Some default_normalizer else None),
      model_loaded = False, encode_calls = []\<rparr>"

definition load_model :: "backend \<Rightarrow> SemanticSimilarity \<Rightarrow> error + SemanticSimilarity" where
  "load_model b s =
     (if model_loaded s then Inr s
      else if constructible b then Inr (s\<lparr>model_loaded := True\<rparr>)
      else Inl BackendError)"

definition Semantic_calculate ::
  "backend \<Rightarrow> SemanticSimilarity \<Rightarrow> string \<Rightarrow> string \<Rightarrow> error + (real \<times> SemanticSimilarity)" where
  "Semantic_calculate b s text1 text2 =
     (case load_model b s of
        Inl e \<Rightarrow> Inl e
      | Inr s1 \<Rightarrow>
          let (t1, t2) = normalized_pair (sem_normalizer s1) text1 text2
          in if strip t1 = [] \<or> strip t2 = []
             then Inr (if strip t1 = strip t2 then 1 else 0, s1)
             else
               let s2 = s1\<lparr>encode_calls := encode_calls s1 @ [(t1, t2)]\<rparr>
               in (case cosine b t1 t2 of
                     Some similarity \<Rightarrow> Inr (max 0 (min 1 similarity), s2)
                   | None \<Rightarrow> Inr (0, s2)))"

section \<open>ComparisonResult (src/models/comparison.py)\<close>

text \<open>
  Floats are modelled as real numbers. The field \<open>computed_at\<close>, the wall-clock time of
  construction, is left out: \<open>from_dict\<close> does not read it back and nothing computes
  with it.
\<close>

record ComparisonResult =
  chunk_index :: int
  normalized_transcript :: string
  normalized_caption :: string
  wer :: real
  cer :: real
  semantic_similarity :: real
  hybrid_score :: real

text \<open>\<open>_calculate_hybrid_score(self, alpha)\<close>, reading \<open>self.wer\<close> and
  \<open>self.semantic_similarity\<close>.\<close>

definition calculate_hybrid_score :: "real \<Rightarrow> real \<Rightarrow> real \<Rightarrow> real" where
  "calculate_hybrid_score self_wer self_semantic a =
     (let accuracy = 1 - min self_wer 1 in a * accuracy + (1 - a) * self_semantic)"

text \<open>
  The generated constructor followed by \<open>__post_init__\<close>: a \<open>hybrid_score\<close> that is
  \<open>None\<close> (the default) is computed with the default \<open>alpha\<close> of
  \<open>_calculate_hybrid_score\<close>, 0.5.
\<close>

definition ComparisonResult_init ::
  "int \<Rightarrow> string \<Rightarrow> string \<Rightarrow> real \<Rightarrow> real \<Rightarrow> real \<Rightarrow> real option \<Rightarrow> ComparisonResult" where
  "ComparisonResult_init idx transcript caption w c sem hybrid =
     \<lparr>chunk_index = idx, normalized_transcript = transcript, normalized_caption = caption,
      wer = w, cer = c, semantic_similarity = sem,
      hybrid_score = (case hybrid of
                        None \<Rightarrow> calculate_hybrid_score w sem (1 / 2)
                      | Some given \<Rightarrow> given)\<rparr>"

text \<open>
  Python's \<open>round(x, 4)\<close>: the nearest multiple of \<open>0.0001\<close>, a tie going to the even
  one.
\<close>

definition round_half_even :: "real \<Rightarrow> int" where
  "round_half_even x =
     (let f = \<lfloor>x\<rfloor>; d = x - of_int f
      in if d < 1 / 2 then f else if 1 / 2 < d then f + 1
         else if even f then f else f + 1)"

definition round4 :: "real \<Rightarrow> real" where
  "round4 x = of_int (round_half_even (x * 10000)) / 10000"

text \<open>The dictionary of \<open>to_dict\<close>, one field per key (without \<open>computed_at\<close>).\<close>

record ComparisonDict =
  d_chunk_index :: int
  d_normalized_transcript :: string
  d_normalized_caption :: string
  d_wer :: real
  d_cer :: real
  d_semantic_similarity :: real
  d_hybrid_score :: "real option"

text \<open>In \<open>to_dict\<close> the test \<open>if self.hybrid_score\<close> is false for \<open>0.0\<close> as well.\<close>

definition to_dict :: "ComparisonResult \<Rightarrow> ComparisonDict" where
  "to_dict r =
     \<lparr>d_chunk_index = chunk_index r,
      d_normalized_transcript = normalized_transcript r,
      d_normalized_caption = normalized_caption r,
      d_wer = round4 (wer r),
      d_cer = round4 (cer r),
      d_semantic_similarity = round4 (semantic_similarity r),
      d_hybrid_score = (if hybrid_score r \<noteq> 0 then Some (round4 (hybrid_score r)) else None)\<rparr>"

definition from_dict :: "ComparisonDict \<Rightarrow> ComparisonResult" where
  "from_dict data =
     ComparisonResult_init (d_chunk_index data) (d_normalized_transcript data)
       (d_normalized_caption data) (d_wer data) (d_cer data) (d_semantic_similarity data)
       (d_hybrid_score data)"

section \<open>HybridScore (src/comparator/hybrid.py)\<close>

record HybridScore =
  alpha :: real
  include_cer :: bool
  wer_calc :: WERCalculator
  cer_calc :: CERCalculator
  semantic_calc :: SemanticSimilarity

definition HybridScore_init :: "real \<Rightarrow> bool \<Rightarrow> bool \<Rightarrow> HybridScore" where
  "HybridScore_init a normalize_flag cer_flag =
     \<lparr>alpha = a, include_cer = cer_flag,
      wer_calc = WERCalculator_init normalize_flag,
      cer_calc = CERCalculator_init normalize_flag,
      semantic_calc = SemanticSimilarity_init normalize_flag\<rparr>"

text \<open>\<open>HybridScore()\<close> with every argument at its default.\<close>

definition HybridScore_default :: HybridScore where
  "HybridScore_default = HybridScore_init (1 / 2) True True"

record metrics =
  m_wer :: real
  m_cer :: real
  m_semantic_similarity :: real
  m_hybrid_score :: real

definition calculate_hybrid :: "HybridScore \<Rightarrow> real \<Rightarrow> real \<Rightarrow> real" where
  "calculate_hybrid self w semantic =
     (let accuracy = 1 - min w 1 in alpha self * accuracy + (1 - alpha self) * semantic)"

definition Hybrid_calculate ::
  "backend \<Rightarrow> HybridScore \<Rightarrow> string \<Rightarrow> string \<Rightarrow> error + (metrics \<times> HybridScore)" where
  "Hybrid_calculate b self reference hypothesis =
     (let w = WER_calculate (wer_calc self) reference hypothesis;
          c = CER_calculate (cer_calc self) reference hypothesis
      in case Semantic_calculate b (semantic_calc self) reference hypothesis of
           Inl e \<Rightarrow> Inl e
         | Inr (semantic, sem') \<Rightarrow>
             let hybrid = calculate_hybrid self w semantic
             in Inr (\<lparr>m_wer = w, m_cer = c, m_semantic_similarity = semantic,
                      m_hybrid_score = hybrid\<rparr>,
                     self\<lparr>semantic_calc := sem'\<rparr>))"

definition compare ::
  "backend \<Rightarrow> HybridScore \<Rightarrow> string \<Rightarrow> string \<Rightarrow> int
   \<Rightarrow> error + (ComparisonResult \<times> HybridScore)" where
  "compare b self reference hypothesis idx =
     (case Hybrid_calculate b self reference hypothesis of
        Inl e \<Rightarrow> Inl e
      | Inr (m, self') \<Rightarrow>
          let (norm_ref, norm_hyp) =
                normalized_pair (wer_normalizer (wer_calc self')) reference hypothesis
          in Inr (ComparisonResult_init idx norm_hyp norm_ref (m_wer m) (m_cer m)
                    (m_semantic_similarity m) (Some (m_hybrid_score m)),
                  self'))"

text \<open>The loop of \<open>compare_all\<close> over \<open>enumerate(zip(...))\<close>, from index \<open>i\<close> on.\<close>

fun compare_loop ::
  "backend \<Rightarrow> HybridScore \<Rightarrow> nat \<Rightarrow> (string \<times> string) list
   \<Rightarrow> error + (ComparisonResult list \<times> HybridScore)" where
  "compare_loop b self i [] = Inr ([], self)"
| "compare_loop b self i ((ref, hyp) # pairs) =
     (case compare b self ref hyp (int i) of
        Inl e \<Rightarrow> Inl e
      | Inr (result, self') \<Rightarrow>
          (case compare_loop b self' (Suc i) pairs of
             Inl e \<Rightarrow> Inl e
           | Inr (results, self'') \<Rightarrow> Inr (result # results, self'')))"

definition compare_all ::
  "backend \<Rightarrow> HybridScore \<Rightarrow> string list \<Rightarrow> string list
   \<Rightarrow> error + (ComparisonResult list \<times> HybridScore)" where
  "compare_all b self reference_texts hypothesis_texts =
     (if length reference_texts \<noteq> length hypothesis_texts then Inl ValueError
      else compare_loop b self 0 (zip reference_texts hypothesis_texts))"

section \<open>NGramDeduplicator (src/deduplicator/ngram.py)\<close>

text \<open>
  \<open>min_n\<close> and \<open>max_n\<close> are sizes and are natural numbers here. A loop of the
  source that does not end gives \<open>None\<close>: that happens only for a window size of 0,
  where the index never moves.
\<close>

record NGramDeduplicator =
  min_n :: nat
  max_n :: nat

definition default_deduplicator :: NGramDeduplicator where
  "default_deduplicator = \<lparr>min_n = 1, max_n = 30\<rparr>"

text \<open>\<open>range(a, b, -1)\<close>: \<open>a, a - 1, ..., b + 1\<close>.\<close>

definition range_down :: "nat \<Rightarrow> nat \<Rightarrow> nat list" where
  "range_down a b = rev [Suc b ..< Suc a]"

text \<open>\<open>tuple(w.lower() for w in words[i:i+n])\<close>.\<close>

definition window_lower :: "string list \<Rightarrow> nat \<Rightarrow> nat \<Rightarrow> string list" where
  "window_lower words i n = map lower (take n (drop i words))"

text \<open>
  \<open>_segments_similar\<close>. The test \<open>matches >= len(seg1) * 0.9\<close> compares an integer with
  a float product; the product of a multiple of ten with the float \<open>0.9\<close> rounds to the
  exact integer, so the test is the integer inequality below.
\<close>

definition segments_similar :: "string list \<Rightarrow> string list \<Rightarrow> bool" where
  "segments_similar seg1 seg2 =
     (if seg1 = seg2 then True
      else if length seg1 \<noteq> length seg2 then False
      else if 10 \<le> length seg1 then
        (let matches = length (filter (\<lambda>(a, b). a = b) (zip seg1 seg2))
         in 9 * length seg1 \<le> 10 * matches)
      else False)"

text \<open>
  The inner loop of \<open>_remove_segment_repetitions\<close>: from index \<open>i\<close>, skip every window
  similar to \<open>current_segment\<close>; the result is the index where it stops.
\<close>

function skip_similar :: "string list \<Rightarrow> nat \<Rightarrow> string list \<Rightarrow> nat \<Rightarrow> nat option" where
  "skip_similar words segment_size current_segment i =
     (if i + segment_size \<le> length words
         \<and> segments_similar current_segment (window_lower words i segment_size)
      then (if segment_size = 0 then None
            else skip_similar words segment_size current_segment (i + segment_size))
      else Some i)"
  by pat_completeness auto
termination
  by (relation "measure (\<lambda>(words, segment_size, current_segment, i). length words - i)") auto

text \<open>The outer loop of \<open>_remove_segment_repetitions\<close>, from index \<open>i\<close> with the
  list \<open>result\<close> built so far.\<close>

function segment_loop ::
  "string list \<Rightarrow> nat \<Rightarrow> nat \<Rightarrow> string list \<Rightarrow> string list option" where
  "segment_loop words segment_size i result =
     (if i < length words then
        (if i + segment_size * 2 \<le> length words then
           (let current_segment = window_lower words i segment_size;
                next_segment = window_lower words (i + segment_size) segment_size
            in if segments_similar current_segment next_segment then
                 (case skip_similar words segment_size current_segment (i + segment_size) of
                    None \<Rightarrow> None
                  | Some j \<Rightarrow>
                      segment_loop words segment_size j
                        (result @ take segment_size (drop i words)))
               else segment_loop words segment_size (Suc i) (result @ [words ! i]))
         else segment_loop words segment_size (Suc i) (result @ [words ! i]))
      else Some result)"
  by pat_completeness auto
termination
proof (relation "measure (\<lambda>(words, segment_size, i, result). length words - i)", goal_cases)
  case 1
  show ?case by simp
next
  case (2 words segment_size i result current_segment next_segment j)
  have ge: "skip_similar ws s cur a = Some b \<Longrightarrow> a \<le> b" for ws s cur a b
  proof (induction ws s cur a rule: skip_similar.induct)
    case (1 ws s cur a)
    show ?case
    proof (cases "a + s \<le> length ws \<and> segments_similar cur (window_lower ws a s)")
      case True
      with "1.prems" have nz: "s \<noteq> 0"
        by (auto split: if_splits)
      with True "1.prems" have "skip_similar ws s cur (a + s) = Some b"
        by simp
      with "1.IH" True nz have "a + s \<le> b" by blast
      then show ?thesis by simp
    next
      case False
      with "1.prems" show ?thesis by auto
    qed
  qed
  have nz: "segment_size \<noteq> 0"
  proof
    assume z: "segment_size = 0"
    with 2 have "skip_similar words segment_size current_segment (i + segment_size) = None"
      by (subst skip_similar.simps) (simp add: window_lower_def segments_similar_def)
    with 2 show False by simp
  qed
  from 2 have "i + segment_size \<le> j"
    using ge by blast
  with 2 nz show ?case by simp
next
  case 3
  then show ?case by simp
next
  case 4
  then show ?case by simp
qed

text \<open>The equations of the two loops unfold forever; they are applied by hand.\<close>

declare skip_similar.simps [simp del]
declare segment_loop.simps [simp del]

definition remove_segment_repetitions :: "string list \<Rightarrow> nat \<Rightarrow> string list option" where
  "remove_segment_repetitions words segment_size =
     (if length words < segment_size * 2 then Some words
      else segment_loop words segment_size 0 [])"

text \<open>The \<open>for\<close> loop of \<open>_remove_large_repetitions\<close> over the segment sizes.\<close>

fun segment_passes :: "nat list \<Rightarrow> string list \<Rightarrow> string list option" where
  "segment_passes [] words = Some words"
| "segment_passes (segment_size # sizes) words =
     (case remove_segment_repetitions words segment_size of
        None \<Rightarrow> None
      | Some words' \<Rightarrow> segment_passes sizes words')"

definition remove_large_repetitions :: "string \<Rightarrow> string option" where
  "remove_large_repetitions text =
     (let words = split_py text
      in if length words < 10 then Some text
         else map_option join_sp
                (segment_passes (range_down (min (length words div 2) 25) 5) words))"

definition remove_consecutive_duplicates :: "string \<Rightarrow> string" where
  "remove_consecutive_duplicates text =
     (case split_py text of
        [] \<Rightarrow> text
      | w # ws \<Rightarrow>
          join_sp (foldl (\<lambda>result word.
                     if lower word \<noteq> lower (last result) then result @ [word] else result)
                   [w] ws))"

text \<open>The inner loop of \<open>_remove_repeated_ngrams\<close>.\<close>

function skip_equal :: "string list \<Rightarrow> nat \<Rightarrow> string list \<Rightarrow> nat \<Rightarrow> nat option" where
  "skip_equal words n current_ngram i =
     (if i + n \<le> length words \<and> window_lower words i n = current_ngram
      then (if n = 0 then None else skip_equal words n current_ngram (i + n))
      else Some i)"
  by pat_completeness auto
termination
  by (relation "measure (\<lambda>(words, n, current_ngram, i). length words - i)") auto

function ngram_loop :: "string list \<Rightarrow> nat \<Rightarrow> nat \<Rightarrow> string list \<Rightarrow> string list option" where
  "ngram_loop words n i result =
     (if i < length words then
        (if i + n * 2 \<le> length words then
           (let current_ngram = window_lower words i n;
                next_ngram = window_lower words (i + n) n
            in if current_ngram = next_ngram then
                 (case skip_equal words n current_ngram (i + n * 2) of
                    None \<Rightarrow> None
                  | Some j \<Rightarrow> ngram_loop words n j (result @ take n (drop i words)))
               else ngram_loop words n (Suc i) (result @ [words ! i]))
         else ngram_loop words n (Suc i) (result @ [words ! i]))
      else Some result)"
  by pat_completeness auto
termination
proof (relation "measure (\<lambda>(words, n, i, result). length words - i)", goal_cases)
  case 1
  show ?case by simp
next
  case (2 words n i result current_ngram next_ngram j)
  have ge: "skip_equal ws m cur a = Some b \<Longrightarrow> a \<le> b" for ws m cur a b
  proof (induction ws m cur a rule: skip_equal.induct)
    case (1 ws m cur a)
    show ?case
    proof (cases "a + m \<le> length ws \<and> window_lower ws a m = cur")
      case True
      with "1.prems" have nz: "m \<noteq> 0"
        by (auto split: if_splits)
      with True "1.prems" have "skip_equal ws m cur (a + m) = Some b"
        by simp
      with "1.IH" True nz have "a + m \<le> b" by blast
      then show ?thesis by simp
    next
      case False
      with "1.prems" show ?thesis by auto
    qed
  qed
  have nz: "n \<noteq> 0"
  proof
    assume z: "n = 0"
    with 2 have "skip_equal words n current_ngram (i + n * 2) = None"
      by (subst skip_equal.simps) (simp add: window_lower_def)
    with 2 show False by simp
  qed
  from 2 have "i + n * 2 \<le> j"
    using ge by blast
  with 2 nz show ?case by simp
next
  case 3
  then show ?case by simp
next
  case 4
  then show ?case by simp
qed

declare skip_equal.simps [simp del]
declare ngram_loop.simps [simp del]

definition remove_repeated_ngrams :: "string \<Rightarrow> nat \<Rightarrow> string option" where
  "remove_repeated_ngrams text n =
     (let words = split_py text
      in if length words < n * 2 then Some text
         else map_option join_sp (ngram_loop words n 0 []))"

fun ngram_passes :: "nat list \<Rightarrow> string \<Rightarrow> string option" where
  "ngram_passes [] text = Some text"
| "ngram_passes (n # ns) text =
     (case remove_repeated_ngrams text n of
        None \<Rightarrow> None
      | Some text' \<Rightarrow> ngram_passes ns text')"

text \<open>\<open>deduplicate_text\<close>; the logging at its end changes nothing and is left out.\<close>

definition deduplicate_text :: "NGramDeduplicator \<Rightarrow> string \<Rightarrow> string option" where
  "deduplicate_text self text =
     (if text = [] \<or> strip text = [] then Some []
      else
        (case remove_large_repetitions text of
           None \<Rightarrow> None
         | Some text1 \<Rightarrow>
             (case ngram_passes (range_down (min (max_n self) 20) 4) text1 of
                None \<Rightarrow> None
              | Some text2 \<Rightarrow>
                  (case ngram_passes (range_down 4 (min_n self)) text2 of
                     None \<Rightarrow> None
                   | Some text3 \<Rightarrow>
                       Some (strip (collapse_ws (remove_consecutive_duplicates text3)))))))"

section \<open>Inputs of the examples\<close>

text \<open>The number of positions of \<open>text\<close> at which \<open>needle\<close> occurs.\<close>

fun occurrences :: "string \<Rightarrow> string \<Rightarrow> nat" where
  "occurrences needle [] = (if needle = [] then 1 else 0)"
| "occurrences needle (c # cs) =
     (if prefix needle (c # cs) then 1 else 0) + occurrences needle cs"

text \<open>The text \<open>Hello, World! It's 123.\<close> of the class docstring.\<close>

definition example_text :: string where
  "example_text = ''Hello, World! It'' @ [apostrophe] @ ''s 123.''"

text \<open>The text \<open>a' 'b\<close>.\<close>

definition apostrophes_text :: string where
  "apostrophes_text = ''a'' @ [apostrophe] @ '' '' @ [apostrophe] @ ''b''"

text \<open>A backend that loads and answers 1 for equal texts and 1/4 otherwise.\<close>

definition example_backend :: backend where
  "example_backend =
     \<lparr>constructible = True, cosine = (\<lambda>a b. if a = b then Some 1 else Some (1 / 4))\<rparr>"

text \<open>A backend whose model cannot be constructed.\<close>

definition unavailable_backend :: backend where
  "unavailable_backend = \<lparr>constructible = False, cosine = (\<lambda>a b. None)\<rparr>"

text \<open>A result whose \<open>wer\<close> has six decimal places.\<close>

definition example_result :: ComparisonResult where
  "example_result =
     \<lparr>chunk_index = 0, normalized_transcript = ''a'', normalized_caption = ''a'',
      wer = 123456 / 1000000, cer = 0, semantic_similarity = 1, hybrid_score = 3 / 4\<rparr>"

section \<open>Shapes of text\<close>

text \<open>
  A text is collapsed when each of its whitespace characters is a space that is followed
  by a character that is not whitespace, or ends the text.
\<close>

fun collapsed :: "string \<Rightarrow> bool" where
  "collapsed [] = True"
| "collapsed [c] = (if is_space c then c = CHR '' '' else True)"
| "collapsed (c # d # ds) =
     ((if is_space c then c = CHR '' '' \<and> \<not> is_space d else True) \<and> collapsed (d # ds))"

section \<open>The large-segment pass as the specification words it\<close>





section \<open>Characters that normalization leaves alone\<close>

text \<open>
  A character is settled for a configuration when no step of \<open>normalize\<close> with that
  configuration changes it: it is not an apostrophe, it is its own lower-case form when
  \<open>lowercase\<close> is on, not a digit when \<open>numbers_to_words\<close> is on, and a word character
  or whitespace when \<open>remove_punctuation\<close> is on.
\<close>

definition settled :: "TextNormalizer \<Rightarrow> char \<Rightarrow> bool" where
  "settled cfg c =
     (c \<noteq> apostrophe
      \<and> (if lowercase cfg then lower_char c = c else True)
      \<and> (if numbers_to_words cfg then NUMBER_WORDS c = None else True)
      \<and> (if remove_punctuation cfg then is_word_char c \<or> is_space c else True))"

text \<open>The letters of the ten digit words.\<close>

definition digit_word_chars :: string where
  "digit_word_chars = ''zeroonetwothreefourfivesixseveneightnine''"

section \<open>The hybrid score\<close>

text \<open>
  Claim C1. The result of \<open>HybridScore.compare\<close> stores
  \<open>alpha * (1 - min(wer, 1)) + (1 - alpha) * semantic_similarity\<close> as its hybrid score,
  for the \<open>wer\<close> and \<open>semantic_similarity\<close> stored on the same result and the scorer's
  \<open>alpha\<close>; a \<open>ComparisonResult\<close> constructed without a hybrid score stores the same
  formula with \<open>alpha = 0.5\<close>, which is also the default \<open>alpha\<close> of the scorer.
\<close>

theorem hybrid_score_formula:
  "(compare b self reference hypothesis idx = Inr (r, self') \<longrightarrow>
      hybrid_score r
        = alpha self * (1 - min (wer r) 1) + (1 - alpha self) * semantic_similarity r)
   \<and> (let q = ComparisonResult_init idx t c w ce sem None
      in hybrid_score q = 1 / 2 * (1 - min (wer q) 1) + (1 - 1 / 2) * semantic_similarity q)
   \<and> alpha HybridScore_default = 1 / 2"
  by (auto simp: compare_def Hybrid_calculate_def calculate_hybrid_def
        ComparisonResult_init_def calculate_hybrid_score_def HybridScore_default_def
        HybridScore_init_def Let_def
      split: sum.splits prod.splits)

theorem hybrid_score_formula_witness:
  "\<exists>r s. compare example_backend HybridScore_default ''a b'' ''a c'' 0 = Inr (r, s)
     \<and> hybrid_score r = 1 / 2 * (1 - min (wer r) 1) + (1 - 1 / 2) * semantic_similarity r"
proof -
  have "case compare example_backend HybridScore_default ''a b'' ''a c'' 0 of
          Inl e \<Rightarrow> False | Inr p \<Rightarrow> True"
    by code_simp
  then obtain r s where
    c: "compare example_backend HybridScore_default ''a b'' ''a c'' 0 = Inr (r, s)"
    by (auto split: sum.splits)
  have a: "alpha HybridScore_default = 1 / 2"
    by (simp add: HybridScore_default_def HybridScore_init_def)
  from c hybrid_score_formula
         [of example_backend HybridScore_default "''a b''" "''a c''" 0 r s]
  have "hybrid_score r = alpha HybridScore_default * (1 - min (wer r) 1)
          + (1 - alpha HybridScore_default) * semantic_similarity r"
    by blast
  then have "hybrid_score r
               = 1 / 2 * (1 - min (wer r) 1) + (1 - 1 / 2) * semantic_similarity r"
    unfolding a .
  with c show ?thesis by blast
qed

section \<open>The normalizer on the docstring's example\<close>

text \<open>
  Claim C5, as the source has it. With the default configuration \<open>numbers_to_words\<close> is
  off, so \<open>normalize("Hello, World! It's 123.")\<close> keeps the digits: the result is
  \<open>hello world it is 123\<close>, single-spaced, lower-case, without punctuation, with the
  contraction expanded. With \<open>numbers_to_words\<close> switched on (the other flags at their
  defaults) the result is \<open>hello world it is onetwothree\<close>.
\<close>

theorem normalize_example:
  "normalize_text default_normalizer example_text = ''hello world it is 123''
   \<and> normalize_text (default_normalizer\<lparr>numbers_to_words := True\<rparr>) example_text
       = ''hello world it is onetwothree''"
  by code_simp

text \<open>With the default configuration the result does not contain \<open>onetwothree\<close>.\<close>

theorem normalize_example_default_counterexample:
  "\<not> contains_str ''onetwothree'' (normalize_text default_normalizer example_text)"
  by code_simp

section \<open>The deduplicator on the examples\<close>

text \<open>
  Claim C9. \<open>deduplicate_text\<close> returns \<open>the quick brown fox\<close> on
  \<open>the the quick quick brown brown fox\<close>; on \<open>hello world hello world how are you\<close> its
  result has exactly one occurrence of \<open>hello world\<close> and does not contain
  \<open>hello world hello world\<close>; the empty text and a text of spaces give the empty text.
\<close>

theorem deduplicate_text_examples:
  "deduplicate_text default_deduplicator ''the the quick quick brown brown fox''
     = Some ''the quick brown fox''
   \<and> deduplicate_text default_deduplicator ''hello world hello world how are you''
       = Some ''hello world how are you''
   \<and> occurrences ''hello world'' ''hello world how are you'' = 1
   \<and> \<not> contains_str ''hello world hello world'' ''hello world how are you''
   \<and> deduplicate_text self [] = Some []
   \<and> deduplicate_text self ''   '' = Some []"
proof -
  have a: "deduplicate_text default_deduplicator ''the the quick quick brown brown fox''
             = Some ''the quick brown fox''"
    by code_simp
  have b: "deduplicate_text default_deduplicator ''hello world hello world how are you''
             = Some ''hello world how are you''"
    by code_simp
  have c: "occurrences ''hello world'' ''hello world how are you'' = 1"
    by code_simp
  have d: "\<not> contains_str ''hello world hello world'' ''hello world how are you''"
    by code_simp
  have e: "deduplicate_text self [] = Some []"
    by (simp add: deduplicate_text_def)
  have "strip ''   '' = []"
    by code_simp
  then have f: "deduplicate_text self ''   '' = Some []"
    by (simp add: deduplicate_text_def)
  from a b c d e f show ?thesis by blast
qed

section \<open>Serialization of a ComparisonResult\<close>

lemma round_half_even_close: "\<bar>of_int (round_half_even y) - y\<bar> \<le> 1 / 2"
  unfolding round_half_even_def Let_def
  by (auto simp: abs_le_iff)

lemma round_half_even_of_int: "round_half_even (of_int k) = k"
  by (simp add: round_half_even_def)

lemma round4_close: "\<bar>round4 x - x\<bar> \<le> 1 / 20000"
proof -
  have "\<bar>of_int (round_half_even (x * 10000)) - x * 10000\<bar> \<le> 1 / 2"
    by (rule round_half_even_close)
  then have "\<bar>(of_int (round_half_even (x * 10000)) - x * 10000) / 10000\<bar> \<le> (1 / 2) / 10000"
    by (simp add: abs_divide divide_right_mono del: times_divide_eq_left)
  then show ?thesis
    by (simp add: round4_def diff_divide_distrib)
qed

lemma round4_exact: "round4 (of_int k / 10000) = of_int k / 10000"
  by (simp add: round4_def round_half_even_of_int)

text \<open>
  Claim C6, as the source has it. \<open>to_dict\<close> rounds every numeric field to four
  decimal places and \<open>from_dict\<close> reads the rounded values back: \<open>wer\<close>, \<open>cer\<close> and
  \<open>semantic_similarity\<close> of the rebuilt result are the original's rounded to four
  places, and so is \<open>hybrid_score\<close> when it is not zero. A rounded value is within
  0.00005 of the original, and a value with at most four decimal places is unchanged.
\<close>

theorem to_dict_from_dict_rounds:
  "wer (from_dict (to_dict r)) = round4 (wer r)
   \<and> cer (from_dict (to_dict r)) = round4 (cer r)
   \<and> semantic_similarity (from_dict (to_dict r)) = round4 (semantic_similarity r)
   \<and> (hybrid_score r \<noteq> 0 \<longrightarrow> hybrid_score (from_dict (to_dict r)) = round4 (hybrid_score r))
   \<and> \<bar>round4 x - x\<bar> \<le> 1 / 20000
   \<and> round4 (of_int k / 10000) = of_int k / 10000"
  using round4_close [of x] round4_exact [of k]
  by (simp add: from_dict_def to_dict_def ComparisonResult_init_def)

theorem to_dict_from_dict_rounds_witness:
  "hybrid_score example_result \<noteq> 0
   \<and> hybrid_score (from_dict (to_dict example_result)) = 3 / 4
   \<and> wer (from_dict (to_dict example_result)) = 1235 / 10000"
proof -
  have h: "hybrid_score example_result \<noteq> 0"
    by (simp add: example_result_def)
  have r1: "round4 (3 / 4) = 3 / 4"
    by (simp add: round4_def round_half_even_def)
  have r2: "round4 (123456 / 1000000) = 1235 / 10000"
    by (simp add: round4_def round_half_even_def)
  from to_dict_from_dict_rounds [of example_result 0 0] h
  have "hybrid_score (from_dict (to_dict example_result)) = round4 (hybrid_score example_result)"
    and "wer (from_dict (to_dict example_result)) = round4 (wer example_result)"
    by blast+
  with h r1 r2 show ?thesis
    by (simp add: example_result_def)
qed

text \<open>The round trip is not exact: a \<open>wer\<close> of 0.123456 comes back as 0.1235.\<close>

theorem to_dict_from_dict_exact_counterexample:
  "wer (from_dict (to_dict example_result)) \<noteq> wer example_result"
  by (simp add: from_dict_def to_dict_def ComparisonResult_init_def example_result_def
        round4_def round_half_even_def)

section \<open>compare_all\<close>

lemma Semantic_calculate_ok:
  assumes "constructible b \<or> model_loaded s"
  shows "\<exists>v s'. Semantic_calculate b s text1 text2 = Inr (v, s')
           \<and> model_loaded s' \<and> sem_normalizer s' = sem_normalizer s"
  using assms
  by (auto simp: Semantic_calculate_def load_model_def Let_def
      split: prod.splits option.splits)

lemma Semantic_calculate_value:
  assumes "Semantic_calculate b s1 text1 text2 = Inr (v1, s1')"
    and "Semantic_calculate b s2 text1 text2 = Inr (v2, s2')"
    and "sem_normalizer s1 = sem_normalizer s2"
  shows "v1 = v2"
  using assms
  by (auto simp: Semantic_calculate_def load_model_def Let_def
      split: prod.splits option.splits if_splits)

lemma compare_ok:
  assumes "constructible b \<or> model_loaded (semantic_calc self)"
  shows "\<exists>r self'. compare b self reference hypothesis idx = Inr (r, self')
           \<and> chunk_index r = idx
           \<and> model_loaded (semantic_calc self')
           \<and> sem_normalizer (semantic_calc self') = sem_normalizer (semantic_calc self)
           \<and> alpha self' = alpha self \<and> wer_calc self' = wer_calc self
           \<and> cer_calc self' = cer_calc self"
proof -
  from Semantic_calculate_ok [OF assms, of reference hypothesis]
  obtain v s' where "Semantic_calculate b (semantic_calc self) reference hypothesis = Inr (v, s')"
    and "model_loaded s'" and "sem_normalizer s' = sem_normalizer (semantic_calc self)"
    by blast
  then show ?thesis
    by (simp add: compare_def Hybrid_calculate_def Let_def ComparisonResult_init_def
        split: prod.splits)
qed

lemma compare_value:
  assumes "compare b self1 reference hypothesis idx = Inr (r1, t1)"
    and "compare b self2 reference hypothesis idx = Inr (r2, t2)"
    and "sem_normalizer (semantic_calc self1) = sem_normalizer (semantic_calc self2)"
    and "alpha self1 = alpha self2" and "wer_calc self1 = wer_calc self2"
    and "cer_calc self1 = cer_calc self2"
  shows "r1 = r2"
proof -
  from assms(1) obtain v1 s1 where
    a: "Semantic_calculate b (semantic_calc self1) reference hypothesis = Inr (v1, s1)"
    by (auto simp: compare_def Hybrid_calculate_def Let_def split: sum.splits prod.splits)
  from assms(2) obtain v2 s2 where
    b: "Semantic_calculate b (semantic_calc self2) reference hypothesis = Inr (v2, s2)"
    by (auto simp: compare_def Hybrid_calculate_def Let_def split: sum.splits prod.splits)
  from Semantic_calculate_value [OF a b assms(3)] have "v1 = v2" .
  with a b assms show ?thesis
    by (auto simp: compare_def Hybrid_calculate_def Let_def calculate_hybrid_def
        split: prod.splits)
qed

lemma compare_loop_ok:
  assumes "constructible b \<or> model_loaded (semantic_calc self)"
  shows "\<exists>rs self'. compare_loop b self i pairs = Inr (rs, self')
           \<and> length rs = length pairs
           \<and> (\<forall>k<length pairs. \<exists>s'. compare b self (fst (pairs ! k)) (snd (pairs ! k)) (int (i + k))
                                        = Inr (rs ! k, s'))"
  using assms
proof (induction pairs arbitrary: self i)
  case Nil
  then show ?case by simp
next
  case (Cons p pairs)
  obtain ref hyp where p: "p = (ref, hyp)" by (cases p)
  from compare_ok [OF Cons.prems, of ref hyp "int i"]
  obtain r self1 where c: "compare b self ref hyp (int i) = Inr (r, self1)"
    and l: "model_loaded (semantic_calc self1)"
    and same: "sem_normalizer (semantic_calc self1) = sem_normalizer (semantic_calc self)"
      "alpha self1 = alpha self" "wer_calc self1 = wer_calc self" "cer_calc self1 = cer_calc self"
    by blast
  from l have "constructible b \<or> model_loaded (semantic_calc self1)" by simp
  from Cons.IH [OF this, of "Suc i"]
  obtain rs self2 where loop: "compare_loop b self1 (Suc i) pairs = Inr (rs, self2)"
    and len: "length rs = length pairs"
    and each: "\<forall>k<length pairs. \<exists>s'. compare b self1 (fst (pairs ! k)) (snd (pairs ! k))
                                        (int (Suc i + k)) = Inr (rs ! k, s')"
    by blast
  have "\<exists>s'. compare b self (fst ((p # pairs) ! k)) (snd ((p # pairs) ! k)) (int (i + k))
               = Inr ((r # rs) ! k, s')"
    if k: "k < length (p # pairs)" for k
  proof (cases k)
    case 0
    with c p show ?thesis by simp
  next
    case (Suc j)
    with k have j: "j < length pairs" by simp
    with each obtain s1 where
      c1: "compare b self1 (fst (pairs ! j)) (snd (pairs ! j)) (int (Suc i + j)) = Inr (rs ! j, s1)"
      by blast
    from compare_ok [OF Cons.prems, of "fst (pairs ! j)" "snd (pairs ! j)" "int (Suc i + j)"]
    obtain r0 s0 where
      c0: "compare b self (fst (pairs ! j)) (snd (pairs ! j)) (int (Suc i + j)) = Inr (r0, s0)"
      by blast
    from compare_value [OF c0 c1] same have "r0 = rs ! j" by simp
    with c0 Suc show ?thesis by auto
  qed
  with c loop len p show ?case by simp
qed

text \<open>
  Claim C7. \<open>compare_all\<close> raises \<open>ValueError\<close>, the invalid-argument error of Python,
  when the two lists differ in length. When they have the same length (and the embedding
  model can be loaded) it returns one result per pair: the result at position \<open>k\<close> is
  the one \<open>compare\<close> gives for the \<open>k\<close>-th pair on its own with chunk index \<open>k\<close>.
\<close>

theorem compare_all_lengths:
  "(length reference_texts \<noteq> length hypothesis_texts \<longrightarrow>
      compare_all b self reference_texts hypothesis_texts = Inl ValueError)
   \<and> (length reference_texts = length hypothesis_texts
        \<and> (constructible b \<or> model_loaded (semantic_calc self)) \<longrightarrow>
      (\<exists>results self'.
          compare_all b self reference_texts hypothesis_texts = Inr (results, self')
          \<and> length results = length reference_texts
          \<and> (\<forall>k<length reference_texts.
                chunk_index (results ! k) = int k
                \<and> (\<exists>s'. compare b self (reference_texts ! k) (hypothesis_texts ! k) (int k)
                           = Inr (results ! k, s')))))"
proof (intro conjI impI)
  assume "length reference_texts \<noteq> length hypothesis_texts"
  then show "compare_all b self reference_texts hypothesis_texts = Inl ValueError"
    by (simp add: compare_all_def)
next
  assume a: "length reference_texts = length hypothesis_texts
             \<and> (constructible b \<or> model_loaded (semantic_calc self))"
  then have av: "constructible b \<or> model_loaded (semantic_calc self)" by simp
  from compare_loop_ok [OF av, of 0 "zip reference_texts hypothesis_texts"]
  obtain rs self' where
    loop: "compare_loop b self 0 (zip reference_texts hypothesis_texts) = Inr (rs, self')"
    and len: "length rs = length (zip reference_texts hypothesis_texts)"
    and each: "\<forall>k<length (zip reference_texts hypothesis_texts).
                 \<exists>s'. compare b self (fst (zip reference_texts hypothesis_texts ! k))
                        (snd (zip reference_texts hypothesis_texts ! k)) (int (0 + k))
                      = Inr (rs ! k, s')"
    by blast
  have "chunk_index (rs ! k) = int k
        \<and> (\<exists>s'. compare b self (reference_texts ! k) (hypothesis_texts ! k) (int k)
                  = Inr (rs ! k, s'))"
    if k: "k < length reference_texts" for k
  proof -
    from k a have kz: "k < length (zip reference_texts hypothesis_texts)" by simp
    with each obtain s' where
      "compare b self (fst (zip reference_texts hypothesis_texts ! k))
         (snd (zip reference_texts hypothesis_texts ! k)) (int (0 + k)) = Inr (rs ! k, s')"
      by blast
    with k a have c: "compare b self (reference_texts ! k) (hypothesis_texts ! k) (int k)
                        = Inr (rs ! k, s')"
      by simp
    from compare_ok [OF av, of "reference_texts ! k" "hypothesis_texts ! k" "int k"] c
    have "chunk_index (rs ! k) = int k" by auto
    with c show ?thesis by blast
  qed
  with loop len a
  show "\<exists>results self'.
          compare_all b self reference_texts hypothesis_texts = Inr (results, self')
          \<and> length results = length reference_texts
          \<and> (\<forall>k<length reference_texts.
                chunk_index (results ! k) = int k
                \<and> (\<exists>s'. compare b self (reference_texts ! k) (hypothesis_texts ! k) (int k)
                           = Inr (results ! k, s')))"
    by (simp add: compare_all_def)
qed

theorem compare_all_lengths_witness:
  "compare_all example_backend HybridScore_default [''a b''] [] = Inl ValueError
   \<and> (\<exists>results self'.
         compare_all example_backend HybridScore_default [''a b'', ''c''] [''a c'', ''c'']
           = Inr (results, self')
         \<and> length results = 2 \<and> chunk_index (results ! 1) = 1)"
proof -
  have c: "constructible example_backend"
    by (simp add: example_backend_def)
  have "compare_all example_backend HybridScore_default [''a b''] [] = Inl ValueError"
    using compare_all_lengths
            [where reference_texts = "[''a b'']" and hypothesis_texts = "[]"
               and b = example_backend and self = HybridScore_default]
    by simp
  moreover
  have "\<exists>results self'.
         compare_all example_backend HybridScore_default [''a b'', ''c''] [''a c'', ''c'']
           = Inr (results, self')
         \<and> length results = 2 \<and> chunk_index (results ! 1) = 1"
    using c compare_all_lengths
            [where reference_texts = "[''a b'', ''c'']" and hypothesis_texts = "[''a c'', ''c'']"
               and b = example_backend and self = HybridScore_default]
    by fastforce
  ultimately show ?thesis by blast
qed

section \<open>Facts about strip\<close>

lemma dropWhile_hd_id: "xs = [] \<or> \<not> P (hd xs) \<Longrightarrow> dropWhile P xs = xs"
  by (cases xs) auto

lemma rev_dropWhile_rev_take: "rev (dropWhile P (rev z)) = take (length z - length (takeWhile P (rev z))) z"
proof -
  have "dropWhile P (rev z) = drop (length (takeWhile P (rev z))) (rev z)"
    by (rule dropWhile_eq_drop)
  then have "rev (dropWhile P (rev z)) = rev (drop (length (takeWhile P (rev z))) (rev z))"
    by simp
  also have "\<dots> = take (length z - length (takeWhile P (rev z))) z"
    by (simp add: rev_drop)
  finally show ?thesis .
qed

lemma strip_front: "dropWhile is_space (strip y) = strip y"
proof -
  let ?z = "dropWhile is_space y"
  obtain k where k: "strip y = take k ?z"
    unfolding strip_def using rev_dropWhile_rev_take [of is_space ?z] by blast
  show ?thesis
  proof (cases "strip y = []")
    case True
    then show ?thesis by simp
  next
    case False
    with k have "?z \<noteq> []" and "0 < k" by auto
    then have "\<not> is_space (hd ?z)" and "hd (take k ?z) = hd ?z"
      by (auto simp: hd_dropWhile)
    with k False show ?thesis
      by (simp add: dropWhile_hd_id)
  qed
qed

lemma strip_strip: "strip (strip y) = strip y"
proof -
  have "strip (strip y) = rev (dropWhile is_space (rev (strip y)))"
    by (simp add: strip_def [of "strip y"] strip_front)
  also have "\<dots> = strip y"
    by (simp add: strip_def)
  finally show ?thesis .
qed

lemma strip_Nil: "strip [] = []"
  by (simp add: strip_def)

lemma strip_normalize_default:
  "strip (normalize_text default_normalizer text) = normalize_text default_normalizer text"
  by (simp add: normalize_text_def default_normalizer_def strip_strip strip_Nil Let_def)

section \<open>SemanticSimilarity.calculate\<close>

text \<open>
  Claim C8, as the source has it. \<open>calculate\<close> loads the model before it looks at the
  texts: when the model is neither loaded nor constructible it raises, for every input,
  the empty ones included. Otherwise, with normalization on: if either normalized text is
  empty, it returns 1 when both are empty and 0 otherwise, and nothing is sent to
  \<open>encode\<close> (only the model slot is filled); if both are non-empty, the pair is sent to
  \<open>encode\<close> once and the result lies in \<open>[0, 1]\<close>: it is the cosine similarity clamped
  to that interval whenever the backend returns one.
\<close>

theorem semantic_calculate_cases:
  assumes "sem_normalizer s = Some default_normalizer"
  shows
    "(\<not> constructible b \<and> \<not> model_loaded s \<longrightarrow>
        Semantic_calculate b s text1 text2 = Inl BackendError)
     \<and> (constructible b \<or> model_loaded s \<longrightarrow>
          (normalize_text default_normalizer text1 = []
             \<or> normalize_text default_normalizer text2 = [] \<longrightarrow>
           Semantic_calculate b s text1 text2
             = Inr (if normalize_text default_normalizer text1 = []
                       \<and> normalize_text default_normalizer text2 = [] then 1 else 0,
                    s\<lparr>model_loaded := True\<rparr>))
          \<and> (normalize_text default_normalizer text1 \<noteq> []
               \<and> normalize_text default_normalizer text2 \<noteq> [] \<longrightarrow>
             (\<exists>v s'. Semantic_calculate b s text1 text2 = Inr (v, s')
                \<and> 0 \<le> v \<and> v \<le> 1
                \<and> encode_calls s'
                    = encode_calls s @ [(normalize_text default_normalizer text1,
                                         normalize_text default_normalizer text2)]
                \<and> (\<forall>similarity.
                      cosine b (normalize_text default_normalizer text1)
                               (normalize_text default_normalizer text2) = Some similarity
                      \<longrightarrow> v = max 0 (min 1 similarity)))))"
proof -
  define t1 where "t1 = normalize_text default_normalizer text1"
  define t2 where "t2 = normalize_text default_normalizer text2"
  have s1: "strip t1 = t1" and s2: "strip t2 = t2"
    by (simp_all add: t1_def t2_def strip_normalize_default)
  have np: "normalized_pair (sem_normalizer (s\<lparr>model_loaded := True\<rparr>)) text1 text2 = (t1, t2)"
    using assms by (simp add: normalized_pair_def normalize_pair_def t1_def t2_def)
  have r: "Semantic_calculate b s text1 text2 = Inl BackendError"
    if "\<not> constructible b \<and> \<not> model_loaded s"
    using that by (simp add: Semantic_calculate_def load_model_def)
  have a: "Semantic_calculate b s text1 text2
             = Inr (if t1 = [] \<and> t2 = [] then 1 else 0, s\<lparr>model_loaded := True\<rparr>)"
    if av: "constructible b \<or> model_loaded s" and "t1 = [] \<or> t2 = []"
  proof -
    from av have "load_model b s = Inr (s\<lparr>model_loaded := True\<rparr>)"
      by (auto simp: load_model_def)
    with that np s1 s2 show ?thesis
      by (auto simp: Semantic_calculate_def)
  qed
  have c: "\<exists>v s'. Semantic_calculate b s text1 text2 = Inr (v, s')
             \<and> 0 \<le> v \<and> v \<le> 1 \<and> encode_calls s' = encode_calls s @ [(t1, t2)]
             \<and> (\<forall>similarity. cosine b t1 t2 = Some similarity \<longrightarrow> v = max 0 (min 1 similarity))"
    if av: "constructible b \<or> model_loaded s" and ne: "t1 \<noteq> [] \<and> t2 \<noteq> []"
  proof -
    from av have l: "load_model b s = Inr (s\<lparr>model_loaded := True\<rparr>)"
      by (auto simp: load_model_def)
    show ?thesis
    proof (cases "cosine b t1 t2")
      case None
      with ne l np s1 s2 show ?thesis
        by (simp add: Semantic_calculate_def Let_def)
    next
      case (Some similarity)
      with ne l np s1 s2 show ?thesis
        by (simp add: Semantic_calculate_def Let_def)
    qed
  qed
  from r a c show ?thesis
    unfolding t1_def t2_def by blast
qed

theorem semantic_calculate_cases_witness:
  "Semantic_calculate unavailable_backend (SemanticSimilarity_init True) ''  '' ''a''
     = Inl BackendError
   \<and> Semantic_calculate example_backend (SemanticSimilarity_init True) ''  '' ''a''
       = Inr (0, (SemanticSimilarity_init True)\<lparr>model_loaded := True\<rparr>)
   \<and> (\<exists>v s'. Semantic_calculate example_backend (SemanticSimilarity_init True) ''a'' ''b''
               = Inr (v, s')
            \<and> encode_calls s' = [(''a'', ''b'')] \<and> v = 1 / 4)"
proof -
  have n: "sem_normalizer (SemanticSimilarity_init True) = Some default_normalizer"
    by (simp add: SemanticSimilarity_init_def)
  have u: "\<not> constructible unavailable_backend \<and> \<not> model_loaded (SemanticSimilarity_init True)"
    by (simp add: unavailable_backend_def SemanticSimilarity_init_def)
  have c: "constructible example_backend \<or> model_loaded (SemanticSimilarity_init True)"
    by (simp add: example_backend_def)
  have e1: "normalize_text default_normalizer ''  '' = []"
    by code_simp
  have e2: "normalize_text default_normalizer ''a'' = ''a''"
    by code_simp
  have e3: "normalize_text default_normalizer ''b'' = ''b''"
    by code_simp
  have k1: "cosine example_backend ''a'' ''b'' = Some (1 / 4)"
    by (simp add: example_backend_def)
  have k2: "encode_calls (SemanticSimilarity_init True) = []"
    by (simp add: SemanticSimilarity_init_def)
  from semantic_calculate_cases [OF n, of unavailable_backend "''  ''" "''a''"] u
  have zero: "Semantic_calculate unavailable_backend (SemanticSimilarity_init True) ''  '' ''a''
                = Inl BackendError"
    by blast
  from semantic_calculate_cases [OF n, of example_backend "''  ''" "''a''"] c
  have first: "Semantic_calculate example_backend (SemanticSimilarity_init True) ''  '' ''a''
          = Inr (0, (SemanticSimilarity_init True)\<lparr>model_loaded := True\<rparr>)"
    unfolding e1 e2 by simp
  from semantic_calculate_cases [OF n, of example_backend "''a''" "''b''"] c
  obtain v s' where
    r: "Semantic_calculate example_backend (SemanticSimilarity_init True) ''a'' ''b''
          = Inr (v, s')"
    and enc: "encode_calls s' = encode_calls (SemanticSimilarity_init True) @ [(''a'', ''b'')]"
    and val: "\<forall>similarity. cosine example_backend ''a'' ''b'' = Some similarity
                \<longrightarrow> v = max 0 (min 1 similarity)"
    unfolding e2 e3 by auto
  from val k1 have "v = max 0 (min 1 (1 / 4))" by blast
  then have q: "v = 1 / 4" by simp
  from enc k2 have enc': "encode_calls s' = [(''a'', ''b'')]" by simp
  from r enc' q
  have "\<exists>v s'. Semantic_calculate example_backend (SemanticSimilarity_init True) ''a'' ''b''
               = Inr (v, s')
            \<and> encode_calls s' = [(''a'', ''b'')] \<and> v = 1 / 4"
    by blast
  with zero first show ?thesis by blast
qed

text \<open>
  On two empty texts, with a model that cannot be constructed, \<open>calculate\<close> raises
  instead of returning 1.
\<close>

theorem semantic_calculate_empty_counterexample:
  "normalize_text default_normalizer [] = []
   \<and> Semantic_calculate unavailable_backend (SemanticSimilarity_init True) [] []
       = Inl BackendError"
  by (simp add: normalize_text_def Semantic_calculate_def load_model_def
        unavailable_backend_def SemanticSimilarity_init_def)

section \<open>Facts about collapsed text\<close>

lemma is_space_space: "is_space (CHR '' '')"
  by (simp add: is_space_def whitespace_chars_def)

lemma strip_eq_Nil_iff: "strip x = [] \<longleftrightarrow> (\<forall>c\<in>set x. is_space c)"
proof
  assume "strip x = []"
  then have a: "\<forall>c\<in>set (dropWhile is_space x). is_space c"
    by (simp add: strip_def dropWhile_eq_Nil_conv)
  have "dropWhile is_space x = []"
  proof (rule ccontr)
    assume n: "dropWhile is_space x \<noteq> []"
    then have "\<not> is_space (hd (dropWhile is_space x))"
      by (rule hd_dropWhile)
    moreover from n have "hd (dropWhile is_space x) \<in> set (dropWhile is_space x)"
      by simp
    ultimately show False using a by blast
  qed
  then show "\<forall>c\<in>set x. is_space c"
    unfolding dropWhile_eq_Nil_conv .
next
  assume "\<forall>c\<in>set x. is_space c"
  then have d: "dropWhile is_space x = []"
    by simp
  show "strip x = []"
    unfolding strip_def d by simp
qed

lemma strip_hd: "strip y \<noteq> [] \<Longrightarrow> \<not> is_space (hd (strip y))"
proof -
  assume n: "strip y \<noteq> []"
  have "dropWhile is_space (strip y) = strip y" by (rule strip_front)
  with n hd_dropWhile [of is_space "strip y"] show ?thesis by simp
qed

lemma strip_take_drop: "\<exists>j k. strip y = take k (drop j y)"
proof -
  have "strip y = take (length (dropWhile is_space y)
                        - length (takeWhile is_space (rev (dropWhile is_space y))))
                   (dropWhile is_space y)"
    unfolding strip_def by (rule rev_dropWhile_rev_take)
  also have "dropWhile is_space y = drop (length (takeWhile is_space y)) y"
    by (rule dropWhile_eq_drop)
  finally show ?thesis by blast
qed

lemma collapsed_tl: "collapsed (c # cs) \<Longrightarrow> collapsed cs"
  by (cases cs) auto

lemma collapsed_drop: "collapsed y \<Longrightarrow> collapsed (drop n y)"
proof (induction n arbitrary: y)
  case 0
  then show ?case by simp
next
  case (Suc n)
  then show ?case
    by (cases y) (auto dest: collapsed_tl)
qed

lemma collapsed_take: "collapsed y \<Longrightarrow> collapsed (take n y)"
proof (induction y arbitrary: n rule: collapsed.induct)
  case 1
  then show ?case by simp
next
  case (2 c)
  then show ?case by (cases n) auto
next
  case (3 c d ds)
  show ?case
  proof (cases n)
    case 0
    then show ?thesis by simp
  next
    case (Suc m)
    from 3 have "collapsed (take m (d # ds))" by simp
    with 3 Suc show ?thesis
      by (cases m) (auto split: if_splits)
  qed
qed

lemma collapsed_strip: "collapsed y \<Longrightarrow> collapsed (strip y)"
  using strip_take_drop [of y] collapsed_take collapsed_drop by metis

lemma collapse_ws_hd:
  "y \<noteq> [] \<Longrightarrow> \<not> is_space (hd y) \<Longrightarrow> collapse_ws y \<noteq> [] \<and> hd (collapse_ws y) = hd y"
  by (cases y) auto

lemma collapsed_collapse_ws: "collapsed (collapse_ws x)"
proof (induction x rule: collapse_ws.induct)
  case 1
  then show ?case by simp
next
  case (2 c cs)
  show ?case
  proof (cases "is_space c")
    case True
    let ?r = "dropWhile is_space cs"
    from True 2 have ih: "collapsed (collapse_ws ?r)" by simp
    show ?thesis
    proof (cases "?r = []")
      case True
      with \<open>is_space c\<close> show ?thesis
        by (simp add: is_space_space del: dropWhile_eq_Nil_conv)
    next
      case False
      then have "\<not> is_space (hd ?r)" by (rule hd_dropWhile)
      with False collapse_ws_hd [of ?r]
      obtain e es where e: "collapse_ws ?r = e # es" and "\<not> is_space e"
        by (cases "collapse_ws ?r") auto
      with ih \<open>is_space c\<close> show ?thesis by (simp add: is_space_space)
    qed
  next
    case False
    with 2 have ih: "collapsed (collapse_ws cs)" by simp
    with False show ?thesis
      by (cases "collapse_ws cs") auto
  qed
qed

lemma collapsed_fixpoint: "collapsed y \<Longrightarrow> collapse_ws y = y"
proof (induction y rule: collapsed.induct)
  case 1
  then show ?case by simp
next
  case (2 c)
  then show ?case by (auto split: if_splits)
next
  case (3 c d ds)
  then show ?case by (auto split: if_splits)
qed

lemma collapsed_remove_multiple_spaces: "collapsed y \<Longrightarrow> remove_multiple_spaces y = y"
proof (induction y rule: collapsed.induct)
  case 1
  then show ?case by simp
next
  case (2 c)
  then show ?case by simp
next
  case (3 c d ds)
  then show ?case by (auto split: if_splits)
qed

lemma collapsed_space: "collapsed y \<Longrightarrow> c \<in> set y \<Longrightarrow> is_space c = (c = CHR '' '')"
proof (induction y rule: collapsed.induct)
  case 1
  then show ?case by simp
next
  case (2 d)
  then show ?case by (auto simp: is_space_space split: if_splits)
next
  case (3 e d ds)
  then show ?case by (auto simp: is_space_space split: if_splits)
qed

lemma split_on_space_split_py:
  "(\<And>c. c \<in> set y \<Longrightarrow> is_space c = (c = CHR '' '')) \<Longrightarrow> split_on_space y = split_py y"
proof (induction y rule: split_py.induct)
  case 1
  then show ?case by simp
next
  case (2 c cs)
  have eq: "x \<in> set (c # cs) \<Longrightarrow> (x \<noteq> CHR '' '') = (\<not> is_space x)" for x
    using "2.prems" by simp
  have tw: "takeWhile (\<lambda>x. x \<noteq> CHR '' '') cs = takeWhile (\<lambda>x. \<not> is_space x) cs"
    by (rule takeWhile_cong) (use eq in auto)
  have dw: "dropWhile (\<lambda>x. x \<noteq> CHR '' '') cs = dropWhile (\<lambda>x. \<not> is_space x) cs"
    by (rule dropWhile_cong) (use eq in auto)
  show ?case
  proof (cases "is_space c")
    case True
    with "2.prems" have c: "c = CHR '' ''" by simp
    from True "2.IH"(1) "2.prems" have "split_on_space cs = split_py cs" by simp
    with True c show ?thesis by simp
  next
    case False
    with "2.prems" have c: "c \<noteq> CHR '' ''" by auto
    have "set (dropWhile (\<lambda>x. \<not> is_space x) cs) \<subseteq> set cs"
      by (rule set_dropWhileD [THEN subsetI]) 
    with False "2.IH"(2) "2.prems"
    have "split_on_space (dropWhile (\<lambda>x. \<not> is_space x) cs)
            = split_py (dropWhile (\<lambda>x. \<not> is_space x) cs)"
      by auto
    with False c tw dw show ?thesis by simp
  qed
qed

lemma normalize_default_shape:
  "collapsed (normalize_text default_normalizer x)
   \<and> strip (normalize_text default_normalizer x) = normalize_text default_normalizer x"
  by (simp add: normalize_text_def default_normalizer_def Let_def collapsed_strip
        collapsed_collapse_ws strip_strip strip_Nil)

lemma jiwer_words_collapsed:
  assumes "collapsed t" and "strip t = t"
  shows "jiwer_words t = split_py t"
proof -
  from assms have "jiwer_words t = split_on_space t"
    by (simp add: jiwer_words_def collapsed_remove_multiple_spaces)
  also have "\<dots> = split_py t"
    by (rule split_on_space_split_py) (rule collapsed_space [OF assms(1)])
  finally show ?thesis .
qed

lemma split_py_nonempty: "t \<noteq> [] \<Longrightarrow> strip t = t \<Longrightarrow> split_py t \<noteq> []"
proof -
  assume n: "t \<noteq> []" and s: "strip t = t"
  with strip_hd [of t] have "\<not> is_space (hd t)" by simp
  with n show ?thesis by (cases t) auto
qed

section \<open>The edge cases of WER and CER\<close>

text \<open>
  Claim C2. With \<open>r\<close> and \<open>h\<close> the normalized reference and hypothesis, both
  \<open>WERCalculator.calculate\<close> and \<open>CERCalculator.calculate\<close> return 0 when \<open>r\<close> and \<open>h\<close>
  are empty, 1 when exactly one of them is, and otherwise the edit distance over
  \<open>max(1, length of the reference sequence)\<close> clamped to \<open>[0, 1]\<close>; the sequences are
  the words of the texts for WER and their characters for CER. The result is always in
  \<open>[0, 1]\<close>.
\<close>

theorem error_rate_policy:
  assumes "r = normalize_text default_normalizer reference"
    and "h = normalize_text default_normalizer hypothesis"
  shows
    "WER_calculate (WERCalculator_init True) reference hypothesis
       = (if r = [] \<and> h = [] then 0
          else if r = [] \<or> h = [] then 1
          else min 1 (max 0 (real (levenshtein (split_py r) (split_py h))
                              / real (max 1 (length (split_py r))))))
     \<and> CER_calculate (CERCalculator_init True) reference hypothesis
       = (if r = [] \<and> h = [] then 0
          else if r = [] \<or> h = [] then 1
          else min 1 (max 0 (real (levenshtein r h) / real (max 1 (length r)))))
     \<and> 0 \<le> WER_calculate (WERCalculator_init True) reference hypothesis
     \<and> WER_calculate (WERCalculator_init True) reference hypothesis \<le> 1
     \<and> 0 \<le> CER_calculate (CERCalculator_init True) reference hypothesis
     \<and> CER_calculate (CERCalculator_init True) reference hypothesis \<le> 1"
proof -
  have sr: "strip r = r" and sh: "strip h = h" and cr: "collapsed r" and ch: "collapsed h"
    using assms normalize_default_shape by simp_all
  have np: "normalized_pair (Some default_normalizer) reference hypothesis = (r, h)"
    using assms by (simp add: normalized_pair_def normalize_pair_def)
  have jr: "jiwer_words r = split_py r" and jh: "jiwer_words h = split_py h"
    using jiwer_words_collapsed cr ch sr sh by simp_all
  have w: "WER_calculate (WERCalculator_init True) reference hypothesis
       = (if r = [] \<and> h = [] then 0
          else if r = [] \<or> h = [] then 1
          else min 1 (max 0 (real (levenshtein (split_py r) (split_py h))
                              / real (max 1 (length (split_py r))))))"
  proof (cases "r = [] \<or> h = []")
    case True
    with np sr sh show ?thesis
      by (auto simp: WER_calculate_def WERCalculator_init_def)
  next
    case False
    then have "split_py r \<noteq> []"
      using split_py_nonempty sr by blast
    then have m: "max 1 (length (split_py r)) = length (split_py r)"
      by (cases "split_py r") simp_all
    from False np sr sh jr jh \<open>split_py r \<noteq> []\<close> show ?thesis
      unfolding m
      by (simp add: WER_calculate_def WERCalculator_init_def calculate_wer_def error_rate_def)
  qed
  have c: "CER_calculate (CERCalculator_init True) reference hypothesis
       = (if r = [] \<and> h = [] then 0
          else if r = [] \<or> h = [] then 1
          else min 1 (max 0 (real (levenshtein r h) / real (max 1 (length r)))))"
  proof (cases "r = [] \<or> h = []")
    case True
    with np sr sh show ?thesis
      by (auto simp: CER_calculate_def CERCalculator_init_def)
  next
    case False
    then have m: "max 1 (length r) = length r"
      by (cases r) simp_all
    from False np sr sh show ?thesis
      unfolding m
      by (simp add: CER_calculate_def CERCalculator_init_def calculate_cer_def error_rate_def
            jiwer_chars_def)
  qed
  have bw: "0 \<le> WER_calculate (WERCalculator_init True) reference hypothesis
            \<and> WER_calculate (WERCalculator_init True) reference hypothesis \<le> 1"
    unfolding w by auto
  have bc: "0 \<le> CER_calculate (CERCalculator_init True) reference hypothesis
            \<and> CER_calculate (CERCalculator_init True) reference hypothesis \<le> 1"
    unfolding c by auto
  from w c bw bc show ?thesis by blast
qed

theorem error_rate_policy_witness:
  "WER_calculate (WERCalculator_init True) ''A  b!'' ''a c'' = 1 / 2
   \<and> CER_calculate (CERCalculator_init True) ''A  b!'' ''a c'' = 1 / 3
   \<and> WER_calculate (WERCalculator_init True) '' '' ''.'' = 0
   \<and> WER_calculate (WERCalculator_init True) '''' ''a'' = 1
   \<and> CER_calculate (CERCalculator_init True) ''a'' ''?'' = 1"
proof -
  have n1: "''a b'' = normalize_text default_normalizer ''A  b!''"
    by code_simp
  have n2: "''a c'' = normalize_text default_normalizer ''a c''"
    by code_simp
  have n3: "[] = normalize_text default_normalizer '' ''"
    by code_simp
  have n4: "[] = normalize_text default_normalizer ''.''"
    by code_simp
  have n5: "[] = normalize_text default_normalizer ''''"
    by code_simp
  have n6: "''a'' = normalize_text default_normalizer ''a''"
    by code_simp
  have n7: "[] = normalize_text default_normalizer ''?''"
    by code_simp
  have l1: "levenshtein (split_py ''a b'') (split_py ''a c'') = 1"
    by code_simp
  have l2: "length (split_py ''a b'') = 2"
    by code_simp
  have l3: "levenshtein ''a b'' ''a c'' = 1"
    by code_simp
  from error_rate_policy [OF n1 n2] l1 l2 l3
  have "WER_calculate (WERCalculator_init True) ''A  b!'' ''a c'' = 1 / 2"
    and "CER_calculate (CERCalculator_init True) ''A  b!'' ''a c'' = 1 / 3"
    by simp_all
  moreover
  from error_rate_policy [OF n3 n4]
  have "WER_calculate (WERCalculator_init True) '' '' ''.'' = 0" by simp
  moreover
  from error_rate_policy [OF n5 n6]
  have "WER_calculate (WERCalculator_init True) '''' ''a'' = 1" by simp
  moreover
  from error_rate_policy [OF n6 n7]
  have "CER_calculate (CERCalculator_init True) ''a'' ''?'' = 1" by simp
  ultimately show ?thesis by blast
qed

section \<open>Facts about words\<close>

lemma split_py_words:
  "w \<in> set (split_py t) \<Longrightarrow> w \<noteq> [] \<and> (\<forall>c\<in>set w. \<not> is_space c)"
proof (induction t rule: split_py.induct)
  case 1
  then show ?case by simp
next
  case (2 c cs)
  show ?case
  proof (cases "is_space c")
    case True
    with 2 show ?thesis by simp
  next
    case False
    with "2.prems" consider "w = c # takeWhile (\<lambda>x. \<not> is_space x) cs"
      | "w \<in> set (split_py (dropWhile (\<lambda>x. \<not> is_space x) cs))"
      by auto
    then show ?thesis
    proof cases
      case 1
      with False show ?thesis by (auto dest: set_takeWhileD)
    next
      case 2
      with False "2.IH"(2) show ?thesis by blast
    qed
  qed
qed

lemma split_py_dropWhile: "split_py (dropWhile is_space t) = split_py t"
  by (induction t) auto

lemma split_py_word_append:
  assumes "w \<noteq> []" and "\<forall>c\<in>set w. \<not> is_space c" and "is_space s"
  shows "split_py (w @ s # rest) = w # split_py rest"
proof -
  from assms(1) obtain c w' where w: "w = c # w'" by (cases w) auto
  with assms(2) have c: "\<not> is_space c" and w': "\<forall>x\<in>set w'. \<not> is_space x" by auto
  from w' assms(3)
  have "takeWhile (\<lambda>x. \<not> is_space x) (w' @ s # rest) = w'"
    and "dropWhile (\<lambda>x. \<not> is_space x) (w' @ s # rest) = s # rest"
    by (simp_all add: takeWhile_append2 dropWhile_append2)
  with c w assms(3) show ?thesis by simp
qed

lemma split_py_word:
  assumes "w \<noteq> []" and "\<forall>c\<in>set w. \<not> is_space c"
  shows "split_py w = [w]"
proof -
  from assms(1) obtain c w' where w: "w = c # w'" by (cases w) auto
  with assms(2) have c: "\<not> is_space c" and w': "\<forall>x\<in>set w'. \<not> is_space x" by auto
  from w' have tw: "takeWhile (\<lambda>x. \<not> is_space x) w' = w'"
    and dw: "dropWhile (\<lambda>x. \<not> is_space x) w' = []"
    by simp_all
  from c show ?thesis
    unfolding w by (simp add: tw dw)
qed

lemma split_py_join_sp:
  "(\<And>w. w \<in> set ws \<Longrightarrow> w \<noteq> [] \<and> (\<forall>c\<in>set w. \<not> is_space c))
   \<Longrightarrow> split_py (join_sp ws) = ws"
proof (induction ws rule: join_sp.induct)
  case 1
  then show ?case by simp
next
  case (2 w)
  then show ?case by (simp add: split_py_word)
next
  case (3 w v ws)
  from "3.prems" have "w \<noteq> []" and "\<forall>c\<in>set w. \<not> is_space c" by auto
  then have "split_py (w @ CHR '' '' # join_sp (v # ws)) = w # split_py (join_sp (v # ws))"
    using is_space_space by (rule split_py_word_append)
  moreover
  have "\<And>x. x \<in> set (v # ws) \<Longrightarrow> x \<noteq> [] \<and> (\<forall>c\<in>set x. \<not> is_space c)"
    using "3.prems" [OF list.set_intros(2)] .
  then have "split_py (join_sp (v # ws)) = v # ws"
    by (rule "3.IH")
  ultimately show ?case by simp
qed

lemma takeWhile_snoc_stop: "\<not> P c \<Longrightarrow> takeWhile P (xs @ [c]) = takeWhile P xs"
  by (induction xs) auto

lemma dropWhile_snoc_stop: "\<not> P c \<Longrightarrow> dropWhile P (xs @ [c]) = dropWhile P xs @ [c]"
  by (induction xs) auto

lemma split_py_snoc_space: "is_space c \<Longrightarrow> split_py (t @ [c]) = split_py t"
proof (induction "length t" arbitrary: t rule: less_induct)
  case less
  show ?case
  proof (cases t)
    case Nil
    with less.prems show ?thesis by simp
  next
    case (Cons a as)
    show ?thesis
    proof (cases "is_space a")
      case True
      with less Cons show ?thesis by simp
    next
      case False
      have "length (dropWhile (\<lambda>x. \<not> is_space x) as) < length t"
        using Cons length_dropWhile_le [of "\<lambda>x. \<not> is_space x" as] by simp
      with less
      have "split_py (dropWhile (\<lambda>x. \<not> is_space x) as @ [c])
              = split_py (dropWhile (\<lambda>x. \<not> is_space x) as)"
        by blast
      with False Cons less.prems show ?thesis
        by (simp add: takeWhile_snoc_stop dropWhile_snoc_stop)
    qed
  qed
qed

lemma split_py_append_spaces: "\<forall>c\<in>set s. is_space c \<Longrightarrow> split_py (t @ s) = split_py t"
proof (induction s arbitrary: t rule: rev_induct)
  case Nil
  then show ?case by simp
next
  case (snoc c s)
  have "split_py (t @ s @ [c]) = split_py ((t @ s) @ [c])" by simp
  also from snoc.prems have "\<dots> = split_py (t @ s)"
    by (intro split_py_snoc_space) simp
  also from snoc have "\<dots> = split_py t" by simp
  finally show ?case .
qed

lemma split_py_strip: "split_py (strip t) = split_py t"
proof -
  let ?z = "dropWhile is_space t"
  have "rev (takeWhile is_space (rev ?z) @ dropWhile is_space (rev ?z)) = rev (rev ?z)"
    by (simp only: takeWhile_dropWhile_id)
  then have "rev (dropWhile is_space (rev ?z)) @ rev (takeWhile is_space (rev ?z)) = ?z"
    by (simp only: rev_append rev_rev_ident)
  then have z: "?z = strip t @ rev (takeWhile is_space (rev ?z))"
    by (simp only: strip_def)
  have "\<forall>c\<in>set (rev (takeWhile is_space (rev ?z))). is_space c"
    by (auto dest: set_takeWhileD)
  then have "split_py (strip t @ rev (takeWhile is_space (rev ?z))) = split_py (strip t)"
    by (rule split_py_append_spaces)
  with z have "split_py ?z = split_py (strip t)" by simp
  then show ?thesis by (simp add: split_py_dropWhile)
qed

lemma takeWhile_collapse_ws:
  "takeWhile (\<lambda>x. \<not> is_space x) (collapse_ws t) = takeWhile (\<lambda>x. \<not> is_space x) t"
  by (induction t) (auto simp: is_space_space)

lemma dropWhile_collapse_ws:
  "dropWhile (\<lambda>x. \<not> is_space x) (collapse_ws t) = collapse_ws (dropWhile (\<lambda>x. \<not> is_space x) t)"
  by (induction t) (auto simp: is_space_space)

lemma split_py_collapse_ws: "split_py (collapse_ws t) = split_py t"
proof (induction "length t" arbitrary: t rule: less_induct)
  case less
  show ?case
  proof (cases t)
    case Nil
    then show ?thesis by simp
  next
    case (Cons c cs)
    show ?thesis
    proof (cases "is_space c")
      case True
      have "length (dropWhile is_space cs) < length t"
        using Cons length_dropWhile_le [of is_space cs] by simp
      with less have "split_py (collapse_ws (dropWhile is_space cs))
                        = split_py (dropWhile is_space cs)"
        by blast
      with True Cons show ?thesis
        by (simp add: is_space_space split_py_dropWhile)
    next
      case False
      have "length (dropWhile (\<lambda>x. \<not> is_space x) cs) < length t"
        using Cons length_dropWhile_le [of "\<lambda>x. \<not> is_space x" cs] by simp
      with less have "split_py (collapse_ws (dropWhile (\<lambda>x. \<not> is_space x) cs))
                        = split_py (dropWhile (\<lambda>x. \<not> is_space x) cs)"
        by blast
      with False Cons show ?thesis
        by (simp add: takeWhile_collapse_ws dropWhile_collapse_ws)
    qed
  qed
qed

lemma split_py_join_subseq:
  assumes "subseq ws (split_py t)"
  shows "split_py (join_sp ws) = ws"
proof (rule split_py_join_sp)
  fix w assume "w \<in> set ws"
  with assms have "w \<in> set (split_py t)"
    using list_emb_set [of "(=)" ws "split_py t" w] by auto
  then show "w \<noteq> [] \<and> (\<forall>c\<in>set w. \<not> is_space c)"
    by (rule split_py_words)
qed

section \<open>The passes keep a subsequence of the words\<close>

lemma subseq_drop_later: "i \<le> j \<Longrightarrow> subseq (drop j ws) (drop i ws)"
proof -
  assume "i \<le> j"
  then have "drop j ws = drop (j - i) (drop i ws)" by simp
  then have "suffix (drop j ws) (drop i ws)"
    using suffix_drop by metis
  then show ?thesis by (rule suffix_imp_subseq)
qed

lemma subseq_window:
  assumes "subseq out (drop j ws)" and "i + n \<le> j"
  shows "subseq (take n (drop i ws) @ out) (drop i ws)"
proof -
  from assms(2) have "subseq (drop j ws) (drop (i + n) ws)"
    by (rule subseq_drop_later)
  with assms(1) have "subseq out (drop (i + n) ws)"
    using subseq_order.order_trans by blast
  then have "subseq out (drop n (drop i ws))"
    by (simp add: add.commute)
  then have "subseq (take n (drop i ws) @ out) (take n (drop i ws) @ drop n (drop i ws))"
    by (simp only: subseq_append')
  then show ?thesis by (simp only: append_take_drop_id)
qed

lemma subseq_step:
  assumes "subseq out (drop (Suc i) ws)" and "i < length ws"
  shows "subseq (ws ! i # out) (drop i ws)"
proof -
  from assms(2) have "drop i ws = ws ! i # drop (Suc i) ws"
    by (simp add: Cons_nth_drop_Suc)
  with assms(1) show ?thesis by simp
qed

lemma skip_similar_Some:
  "0 < segment_size \<Longrightarrow> \<exists>j. skip_similar words segment_size current i = Some j \<and> i \<le> j"
proof (induction "length words - i" arbitrary: i rule: less_induct)
  case less
  show ?case
  proof (cases "i + segment_size \<le> length words
      \<and> segments_similar current (window_lower words i segment_size)")
    case True
    then have "i + segment_size \<le> length words" by simp
    with less.prems have "length words - (i + segment_size) < length words - i" by arith
    with less obtain j where
      "skip_similar words segment_size current (i + segment_size) = Some j"
      and "i + segment_size \<le> j"
      by blast
    moreover from True less.prems
    have "skip_similar words segment_size current i
            = skip_similar words segment_size current (i + segment_size)"
      by (subst skip_similar.simps) (simp only: if_True if_False, simp)
    ultimately show ?thesis by auto
  next
    case False
    then have "skip_similar words segment_size current i = Some i"
      by (subst skip_similar.simps) (simp only: if_False)
    then show ?thesis by blast
  qed
qed

lemma skip_equal_Some:
  "0 < n \<Longrightarrow> \<exists>j. skip_equal words n current i = Some j \<and> i \<le> j"
proof (induction "length words - i" arbitrary: i rule: less_induct)
  case less
  show ?case
  proof (cases "i + n \<le> length words \<and> window_lower words i n = current")
    case True
    then have "i + n \<le> length words" by simp
    with less.prems have "length words - (i + n) < length words - i" by arith
    with less obtain j where "skip_equal words n current (i + n) = Some j" and "i + n \<le> j"
      by blast
    moreover from True less.prems
    have "skip_equal words n current i = skip_equal words n current (i + n)"
      by (subst skip_equal.simps) (simp only: if_True if_False, simp)
    ultimately show ?thesis by auto
  next
    case False
    then have "skip_equal words n current i = Some i"
      by (subst skip_equal.simps) (simp only: if_False)
    then show ?thesis by blast
  qed
qed

lemma segment_loop_subseq:
  "0 < segment_size \<Longrightarrow>
   \<exists>out. segment_loop words segment_size i result = Some (result @ out)
         \<and> subseq out (drop i words)"
proof (induction "length words - i" arbitrary: i result rule: less_induct)
  case less
  show ?case
  proof (cases "i < length words")
    case False
    then show ?thesis
      by (subst segment_loop.simps) simp
  next
    case True
    show ?thesis
    proof (cases "i + segment_size * 2 \<le> length words
        \<and> segments_similar (window_lower words i segment_size)
             (window_lower words (i + segment_size) segment_size)")
      case hit: True
      from skip_similar_Some [OF less.prems] obtain j where
        j: "skip_similar words segment_size (window_lower words i segment_size)
              (i + segment_size) = Some j"
        and ge: "i + segment_size \<le> j"
        by blast
      from ge less.prems True have "length words - j < length words - i" by simp
      with less obtain out where
        r: "segment_loop words segment_size j (result @ take segment_size (drop i words))
              = Some ((result @ take segment_size (drop i words)) @ out)"
        and s: "subseq out (drop j words)"
        by blast
      from True hit j r
      have "segment_loop words segment_size i result
              = Some (result @ take segment_size (drop i words) @ out)"
        by (subst segment_loop.simps) (simp add: Let_def)
      moreover from s ge have "subseq (take segment_size (drop i words) @ out) (drop i words)"
        by (rule subseq_window)
      ultimately show ?thesis by blast
    next
      case keep: False
      from True have "length words - Suc i < length words - i" by simp
      with less obtain out where
        r: "segment_loop words segment_size (Suc i) (result @ [words ! i])
              = Some ((result @ [words ! i]) @ out)"
        and s: "subseq out (drop (Suc i) words)"
        by blast
      from True keep r
      have "segment_loop words segment_size i result = Some (result @ words ! i # out)"
        by (subst segment_loop.simps) (auto simp: Let_def)
      moreover from s True have "subseq (words ! i # out) (drop i words)"
        by (rule subseq_step)
      ultimately show ?thesis by blast
    qed
  qed
qed

lemma ngram_loop_subseq:
  "0 < n \<Longrightarrow>
   \<exists>out. ngram_loop words n i result = Some (result @ out) \<and> subseq out (drop i words)"
proof (induction "length words - i" arbitrary: i result rule: less_induct)
  case less
  show ?case
  proof (cases "i < length words")
    case False
    then show ?thesis
      by (subst ngram_loop.simps) simp
  next
    case True
    show ?thesis
    proof (cases "i + n * 2 \<le> length words
        \<and> window_lower words i n = window_lower words (i + n) n")
      case hit: True
      from skip_equal_Some [OF less.prems] obtain j where
        j: "skip_equal words n (window_lower words i n) (i + n * 2) = Some j"
        and ge: "i + n * 2 \<le> j"
        by blast
      from ge less.prems True have "length words - j < length words - i" by simp
      with less obtain out where
        r: "ngram_loop words n j (result @ take n (drop i words))
              = Some ((result @ take n (drop i words)) @ out)"
        and s: "subseq out (drop j words)"
        by blast
      from True hit j r
      have "ngram_loop words n i result = Some (result @ take n (drop i words) @ out)"
        by (subst ngram_loop.simps) (simp add: Let_def)
      moreover from ge have "i + n \<le> j" by simp
      with s have "subseq (take n (drop i words) @ out) (drop i words)"
        by (rule subseq_window)
      ultimately show ?thesis by blast
    next
      case keep: False
      from True have "length words - Suc i < length words - i" by simp
      with less obtain out where
        r: "ngram_loop words n (Suc i) (result @ [words ! i])
              = Some ((result @ [words ! i]) @ out)"
        and s: "subseq out (drop (Suc i) words)"
        by blast
      from True keep r
      have "ngram_loop words n i result = Some (result @ words ! i # out)"
        by (subst ngram_loop.simps) (auto simp: Let_def)
      moreover from s True have "subseq (words ! i # out) (drop i words)"
        by (rule subseq_step)
      ultimately show ?thesis by blast
    qed
  qed
qed

lemma remove_segment_repetitions_subseq:
  assumes "0 < segment_size"
  shows "\<exists>out. remove_segment_repetitions words segment_size = Some out \<and> subseq out words"
proof (cases "length words < segment_size * 2")
  case True
  then show ?thesis by (simp add: remove_segment_repetitions_def)
next
  case False
  from segment_loop_subseq [OF assms, of words 0 "[]"] obtain out where
    "segment_loop words segment_size 0 [] = Some out" and "subseq out words"
    by auto
  with False show ?thesis by (simp add: remove_segment_repetitions_def)
qed

lemma segment_passes_subseq:
  "(\<And>s. s \<in> set sizes \<Longrightarrow> 0 < s) \<Longrightarrow>
   \<exists>out. segment_passes sizes words = Some out \<and> subseq out words"
proof (induction sizes arbitrary: words)
  case Nil
  then show ?case by simp
next
  case (Cons s sizes)
  have "0 < s" using Cons.prems [of s] by simp
  from remove_segment_repetitions_subseq [OF this, of words] obtain mid where
    m: "remove_segment_repetitions words s = Some mid" and ms: "subseq mid words"
    by blast
  have "\<And>x. x \<in> set sizes \<Longrightarrow> 0 < x"
    using Cons.prems [OF list.set_intros(2)] .
  from Cons.IH [OF this, of mid] obtain out where
    o: "segment_passes sizes mid = Some out" and os: "subseq out mid"
    by blast
  from os ms have "subseq out words"
    using subseq_order.order_trans by blast
  with m o show ?case by simp
qed

lemma range_down_pos: "s \<in> set (range_down a b) \<Longrightarrow> 0 < s"
  by (auto simp: range_down_def)

lemma remove_large_repetitions_subseq:
  "\<exists>out. remove_large_repetitions text = Some out \<and> subseq (split_py out) (split_py text)"
proof (cases "length (split_py text) < 10")
  case True
  then show ?thesis by (simp add: remove_large_repetitions_def)
next
  case False
  have "\<exists>out. segment_passes (range_down (min (length (split_py text) div 2) 25) 5)
                 (split_py text) = Some out
               \<and> subseq out (split_py text)"
    by (rule segment_passes_subseq) (rule range_down_pos)
  then obtain out where
    o: "segment_passes (range_down (min (length (split_py text) div 2) 25) 5) (split_py text)
          = Some out"
    and s: "subseq out (split_py text)"
    by blast
  from s have "split_py (join_sp out) = out" by (rule split_py_join_subseq)
  with False o s show ?thesis by (simp add: remove_large_repetitions_def Let_def)
qed

lemma remove_repeated_ngrams_subseq:
  assumes "0 < n"
  shows "\<exists>out. remove_repeated_ngrams text n = Some out
           \<and> subseq (split_py out) (split_py text)"
proof (cases "length (split_py text) < n * 2")
  case True
  then show ?thesis by (simp add: remove_repeated_ngrams_def)
next
  case False
  from ngram_loop_subseq [OF assms, of "split_py text" 0 "[]"] obtain out where
    o: "ngram_loop (split_py text) n 0 [] = Some out" and s: "subseq out (split_py text)"
    by auto
  from s have "split_py (join_sp out) = out" by (rule split_py_join_subseq)
  with False o s show ?thesis by (simp add: remove_repeated_ngrams_def Let_def)
qed

lemma ngram_passes_subseq:
  "(\<And>n. n \<in> set ns \<Longrightarrow> 0 < n) \<Longrightarrow>
   \<exists>out. ngram_passes ns t = Some out \<and> subseq (split_py out) (split_py t)"
proof (induction ns arbitrary: t)
  case Nil
  then show ?case by simp
next
  case (Cons n ns)
  have "0 < n" using Cons.prems [of n] by simp
  from remove_repeated_ngrams_subseq [OF this, of t] obtain mid where
    m: "remove_repeated_ngrams t n = Some mid"
    and ms: "subseq (split_py mid) (split_py t)"
    by blast
  have "\<And>x. x \<in> set ns \<Longrightarrow> 0 < x"
    using Cons.prems [OF list.set_intros(2)] .
  from Cons.IH [OF this, of mid] obtain out where
    o: "ngram_passes ns mid = Some out" and os: "subseq (split_py out) (split_py mid)"
    by blast
  from os ms have "subseq (split_py out) (split_py t)"
    using subseq_order.order_trans by blast
  with m o show ?case by simp
qed

lemma keep_distinct_subseq:
  "\<exists>out. foldl (\<lambda>result word.
             if lower word \<noteq> lower (last result) then result @ [word] else result) acc ws
          = acc @ out \<and> subseq out ws"
proof (induction ws arbitrary: acc)
  case Nil
  then show ?case by simp
next
  case (Cons w ws)
  show ?case
  proof (cases "lower w \<noteq> lower (last acc)")
    case True
    from Cons [of "acc @ [w]"] obtain out where
      "foldl (\<lambda>result word.
             if lower word \<noteq> lower (last result) then result @ [word] else result)
         (acc @ [w]) ws = (acc @ [w]) @ out"
      and "subseq out ws"
      by blast
    with True show ?thesis by auto
  next
    case False
    from Cons [of acc] obtain out where
      "foldl (\<lambda>result word.
             if lower word \<noteq> lower (last result) then result @ [word] else result)
         acc ws = acc @ out"
      and "subseq out ws"
      by blast
    with False show ?thesis by auto
  qed
qed

lemma remove_consecutive_duplicates_subseq:
  "subseq (split_py (remove_consecutive_duplicates text)) (split_py text)"
proof (cases "split_py text")
  case Nil
  then show ?thesis by (simp add: remove_consecutive_duplicates_def)
next
  case (Cons w ws)
  from keep_distinct_subseq [of "[w]" ws] obtain out where
    f: "foldl (\<lambda>result word.
             if lower word \<noteq> lower (last result) then result @ [word] else result) [w] ws
          = [w] @ out"
    and s: "subseq out ws"
    by blast
  from s Cons have s': "subseq (w # out) (split_py text)" by simp
  then have "split_py (join_sp (w # out)) = w # out" by (rule split_py_join_subseq)
  with Cons f s' show ?thesis by (simp add: remove_consecutive_duplicates_def)
qed

text \<open>
  Claim C10. \<open>deduplicate_text\<close> returns, and the words of its result are a
  subsequence of the words of the input: every pass only keeps words, in their order. So
  the result never has more words than the input.
\<close>

theorem deduplicate_text_subsequence:
  "\<exists>out. deduplicate_text self text = Some out
         \<and> subseq (split_py out) (split_py text)
         \<and> length (split_py out) \<le> length (split_py text)"
proof (cases "text = [] \<or> strip text = []")
  case True
  then show ?thesis by (auto simp: deduplicate_text_def)
next
  case False
  from remove_large_repetitions_subseq [of "text"] obtain text1 where
    t1: "remove_large_repetitions text = Some text1"
    and s1: "subseq (split_py text1) (split_py text)"
    by blast
  have "\<exists>out. ngram_passes (range_down (min (max_n self) 20) 4) text1 = Some out
               \<and> subseq (split_py out) (split_py text1)"
    by (rule ngram_passes_subseq) (rule range_down_pos)
  then obtain text2 where
    t2: "ngram_passes (range_down (min (max_n self) 20) 4) text1 = Some text2"
    and s2: "subseq (split_py text2) (split_py text1)"
    by blast
  have "\<exists>out. ngram_passes (range_down 4 (min_n self)) text2 = Some out
               \<and> subseq (split_py out) (split_py text2)"
    by (rule ngram_passes_subseq) (rule range_down_pos)
  then obtain text3 where
    t3: "ngram_passes (range_down 4 (min_n self)) text2 = Some text3"
    and s3: "subseq (split_py text3) (split_py text2)"
    by blast
  let ?out = "strip (collapse_ws (remove_consecutive_duplicates text3))"
  have "split_py ?out = split_py (remove_consecutive_duplicates text3)"
    by (simp add: split_py_strip split_py_collapse_ws)
  then have "subseq (split_py ?out) (split_py text3)"
    by (simp add: remove_consecutive_duplicates_subseq)
  with s3 s2 s1 have s: "subseq (split_py ?out) (split_py text)"
    using subseq_order.order_trans by blast
  then have "length (split_py ?out) \<le> length (split_py text)"
    by (rule list_emb_length)
  moreover from False t1 t2 t3 have "deduplicate_text self text = Some ?out"
    by (simp add: deduplicate_text_def)
  ultimately show ?thesis using s by blast
qed

section \<open>The large-segment pass\<close>











section \<open>Normalization of text whose result has no apostrophe\<close>

lemma upper_chars_lowered:
  "list_all (\<lambda>c. lower_char c \<notin> set upper_chars \<and> lower_char c \<noteq> apostrophe) upper_chars"
  by code_simp

lemma digit_word_chars_plain:
  "list_all (\<lambda>c. c \<notin> set upper_chars \<and> c \<noteq> apostrophe \<and> NUMBER_WORDS c = None)
     digit_word_chars"
  by code_simp

lemma space_plain:
  "CHR '' '' \<notin> set upper_chars \<and> CHR '' '' \<noteq> apostrophe \<and> NUMBER_WORDS (CHR '' '') = None"
  by code_simp

lemma lower_char_idem: "lower_char (lower_char c) = lower_char c"
proof (cases "c \<in> set upper_chars")
  case True
  with upper_chars_lowered have "lower_char c \<notin> set upper_chars"
    by (simp add: list_all_iff)
  then show ?thesis by (simp add: lower_char_def [of "lower_char c"])
next
  case False
  then show ?thesis by (simp add: lower_char_def)
qed

lemma number_word_chars:
  "NUMBER_WORDS d = Some w \<Longrightarrow> c \<in> set w \<Longrightarrow> c \<in> set digit_word_chars"
  by (auto simp: NUMBER_WORDS_def digit_word_chars_def split: if_splits)

lemma digit_word_char_facts:
  assumes "c \<in> set digit_word_chars"
  shows "lower_char c = c" and "c \<noteq> apostrophe" and "NUMBER_WORDS c = None"
  using assms digit_word_chars_plain
  by (simp_all add: list_all_iff lower_char_def)

lemma space_facts:
  "lower_char (CHR '' '') = CHR '' ''" "CHR '' '' \<noteq> apostrophe"
  "NUMBER_WORDS (CHR '' '') = None"
  using space_plain by (simp_all add: lower_char_def)

lemma replace_py_absent:
  assumes "c \<in> set old" and "c \<notin> set s"
  shows "replace_py old new s = s"
  using assms(2)
proof (induction s)
  case Nil
  with assms(1) show ?case by auto
next
  case (Cons x xs)
  from assms(1) have ne: "old \<noteq> []" by auto
  have "\<not> prefix old (x # xs)"
  proof
    assume "prefix old (x # xs)"
    then have "set old \<subseteq> set (x # xs)" by (rule set_mono_prefix)
    with assms(1) Cons.prems show False by blast
  qed
  with ne Cons show ?case by simp
qed

lemma expand_contractions_absent:
  "apostrophe \<notin> set s \<Longrightarrow> expand_contractions_text s = s"
  by (simp add: expand_contractions_text_def contractions_def replace_py_absent [of apostrophe])

lemma remove_apostrophes_absent: "apostrophe \<notin> set s \<Longrightarrow> remove_apostrophes s = s"
proof (induction s)
  case Nil
  then show ?case by simp
next
  case (Cons c cs)
  then have ih: "remove_apostrophes cs = cs" and c: "c \<noteq> apostrophe" by auto
  have "q \<noteq> apostrophe" if "dropWhile is_space cs = q # rest" for q rest
  proof -
    from that have "q \<in> set (dropWhile is_space cs)" by simp
    then have "q \<in> set cs" by (rule set_dropWhileD)
    with Cons.prems show ?thesis by auto
  qed
  with ih c show ?case
    by (auto split: list.splits)
qed

lemma set_collapse_ws: "c \<in> set (collapse_ws t) \<Longrightarrow> c \<in> set t \<or> c = CHR '' ''"
proof (induction t rule: collapse_ws.induct)
  case 1
  then show ?case by simp
next
  case (2 d ds)
  then show ?case
    by (auto split: if_splits dest: set_dropWhileD)
qed

lemma set_strip: "c \<in> set (strip t) \<Longrightarrow> c \<in> set t"
proof -
  assume "c \<in> set (strip t)"
  then have "c \<in> set (dropWhile is_space (rev (dropWhile is_space t)))"
    by (simp add: strip_def)
  then have "c \<in> set (rev (dropWhile is_space t))" by (rule set_dropWhileD)
  then have "c \<in> set (dropWhile is_space t)" by simp
  then show ?thesis by (rule set_dropWhileD)
qed

lemma settled_space: "settled cfg (CHR '' '')"
  by (simp add: settled_def space_facts is_space_space)

lemma numbers_to_words_chars:
  assumes "c \<in> set (numbers_to_words_text t)"
  shows "c \<in> set digit_word_chars \<or> (c \<in> set t \<and> NUMBER_WORDS c = None)"
proof -
  from assms obtain d where d: "d \<in> set t"
    and c: "c \<in> set (case NUMBER_WORDS d of Some w \<Rightarrow> w | None \<Rightarrow> [d])"
    by (auto simp: numbers_to_words_text_def)
  show ?thesis
  proof (cases "NUMBER_WORDS d")
    case None
    with c d show ?thesis by simp
  next
    case (Some w)
    with c have "c \<in> set digit_word_chars"
      by (auto intro: number_word_chars)
    then show ?thesis by simp
  qed
qed

lemma numbers_to_words_fixed:
  "\<forall>c\<in>set t. NUMBER_WORDS c = None \<Longrightarrow> numbers_to_words_text t = t"
  by (induction t) (simp_all add: numbers_to_words_text_def)

lemma sweep_punctuation_chars:
  assumes "c \<in> set (sweep_punctuation t)"
  shows "c = CHR '' '' \<or> (c \<in> set t \<and> (is_word_char c \<or> is_space c \<or> c = apostrophe))"
  using assms by (auto simp: sweep_punctuation_def split: if_splits)

lemma sweep_punctuation_fixed:
  "\<forall>c\<in>set t. is_word_char c \<or> is_space c \<Longrightarrow> sweep_punctuation t = t"
  by (induction t) (auto simp: sweep_punctuation_def)

lemma lower_fixed: "\<forall>c\<in>set t. lower_char c = c \<Longrightarrow> lower t = t"
  by (induction t) (simp_all add: lower_def)

lemma contractions_lowered:
  "list_all (\<lambda>(old, new). list_all (\<lambda>c. c \<notin> set upper_chars) new) contractions"
  by code_simp

lemma set_replace_py: "c \<in> set (replace_py old new s) \<Longrightarrow> c \<in> set s \<or> c \<in> set new"
proof (induction old new s rule: replace_py.induct)
  case (1 old new)
  then show ?case by (auto split: if_splits)
next
  case (2 old new x xs)
  show ?case
  proof (cases "old = []")
    case True
    with 2 show ?thesis by auto
  next
    case False
    show ?thesis
    proof (cases "prefix old (x # xs)")
      case True
      with False "2.prems"
      have "c \<in> set new \<or> c \<in> set (replace_py old new (drop (length old - 1) xs))"
        by auto
      with False True "2.IH"(2)
      have "c \<in> set new \<or> c \<in> set (drop (length old - 1) xs)"
        by blast
      then show ?thesis by (auto dest: in_set_dropD)
    next
      case no: False
      with False "2.prems" have "c = x \<or> c \<in> set (replace_py old new xs)"
        by auto
      with False no "2.IH"(3) show ?thesis by auto
    qed
  qed
qed

lemma set_replace_table:
  "c \<in> set (foldl (\<lambda>t (old, new). replace_py old new t) s table)
   \<Longrightarrow> c \<in> set s \<or> (\<exists>(old, new)\<in>set table. c \<in> set new)"
proof (induction table arbitrary: s)
  case Nil
  then show ?case by simp
next
  case (Cons p table)
  obtain old new where p: "p = (old, new)" by (cases p)
  with Cons.prems
  have "c \<in> set (foldl (\<lambda>t (old, new). replace_py old new t) (replace_py old new s) table)"
    by simp
  then have "c \<in> set (replace_py old new s) \<or> (\<exists>(old, new)\<in>set table. c \<in> set new)"
    by (rule Cons.IH)
  then show ?case
    using p by (auto dest: set_replace_py)
qed

lemma expand_contractions_chars:
  assumes "c \<in> set (expand_contractions_text t)"
  shows "c \<in> set t \<or> lower_char c = c"
proof -
  from assms have "c \<in> set t \<or> (\<exists>(old, new)\<in>set contractions. c \<in> set new)"
    unfolding expand_contractions_text_def by (rule set_replace_table)
  then show ?thesis
  proof
    assume "c \<in> set t"
    then show ?thesis by simp
  next
    assume "\<exists>(old, new)\<in>set contractions. c \<in> set new"
    then obtain old new where "(old, new) \<in> set contractions" and "c \<in> set new"
      by auto
    with contractions_lowered have "c \<notin> set upper_chars"
      by (auto simp: list_all_iff)
    then show ?thesis by (simp add: lower_char_def)
  qed
qed

lemma set_remove_apostrophes:
  "c \<in> set (remove_apostrophes t) \<Longrightarrow> c \<in> set t \<or> c = CHR '' ''"
proof (induction t rule: remove_apostrophes.induct)
  case 1
  then show ?case by simp
next
  case (2 d ds)
  show ?case
  proof (cases "is_space d")
    case True
    show ?thesis
    proof (cases "dropWhile is_space ds")
      case Nil
      with True "2.prems" have "c = d \<or> c \<in> set (remove_apostrophes ds)" by auto
      with True Nil "2.IH"(1) show ?thesis by auto
    next
      case (Cons q rest)
      have sub: "set rest \<subseteq> set ds"
      proof
        fix y assume "y \<in> set rest"
        with Cons have "y \<in> set (dropWhile is_space ds)" by simp
        then show "y \<in> set ds" by (rule set_dropWhileD)
      qed
      show ?thesis
      proof (cases "q = apostrophe")
        case yes: True
        with True Cons "2.prems"
        have "c = CHR '' '' \<or> c \<in> set (remove_apostrophes rest)" by auto
        with True Cons yes "2.IH"(2) sub show ?thesis by auto
      next
        case no: False
        with True Cons "2.prems" have "c = d \<or> c \<in> set (remove_apostrophes ds)" by auto
        with True Cons no "2.IH"(3) show ?thesis by auto
      qed
    qed
  next
    case False
    show ?thesis
    proof (cases "d = apostrophe")
      case ap: True
      show ?thesis
      proof (cases ds)
        case Nil
        with False ap "2.prems" show ?thesis by auto
      next
        case (Cons e es)
        show ?thesis
        proof (cases "is_space e")
          case sp: True
          with False ap Cons "2.prems"
          have "c = CHR '' '' \<or> c \<in> set (remove_apostrophes (dropWhile is_space es))"
            by auto
          with False ap Cons sp "2.IH"(5)
          have "c = CHR '' '' \<or> c \<in> set (dropWhile is_space es)"
            by auto
          with Cons show ?thesis by (auto dest: set_dropWhileD)
        next
          case nsp: False
          with False ap Cons "2.prems" have "c = d \<or> c \<in> set (remove_apostrophes ds)"
            by auto
          with False ap Cons nsp "2.IH"(6) show ?thesis by auto
        qed
      qed
    next
      case nap: False
      with False "2.prems" have "c = d \<or> c \<in> set (remove_apostrophes ds)" by auto
      with False nap "2.IH"(7) show ?thesis by auto
    qed
  qed
qed

lemma normalize_text_chars:
  assumes "c \<in> set (normalize_text cfg s)"
  shows "(if lowercase cfg then lower_char c = c else True)
         \<and> (if numbers_to_words cfg then NUMBER_WORDS c = None else True)
         \<and> (if remove_punctuation cfg then is_word_char c \<or> is_space c \<or> c = apostrophe
             else True)"
proof -
  from assms have ne: "s \<noteq> []"
    by (auto simp: normalize_text_def)
  define t1 where "t1 = (if lowercase cfg then lower s else s)"
  define t2 where "t2 = (if expand_contractions cfg then expand_contractions_text t1 else t1)"
  define t3 where "t3 = (if numbers_to_words cfg then numbers_to_words_text t2 else t2)"
  define t4 where "t4 = (if remove_punctuation cfg then remove_punctuation_text t3 else t3)"
  have q1: "(if lowercase cfg then lower_char x = x else True)" if "x \<in> set t1" for x
    using that by (auto simp: t1_def lower_def lower_char_idem split: if_splits)
  have q2: "(if lowercase cfg then lower_char x = x else True)" if x: "x \<in> set t2" for x
  proof (cases "expand_contractions cfg")
    case True
    with x have "x \<in> set t1 \<or> lower_char x = x"
      by (auto simp: t2_def dest: expand_contractions_chars)
    with q1 show ?thesis by auto
  next
    case False
    with x q1 show ?thesis by (simp add: t2_def)
  qed
  have q3: "(if lowercase cfg then lower_char x = x else True)
            \<and> (if numbers_to_words cfg then NUMBER_WORDS x = None else True)"
    if x: "x \<in> set t3" for x
  proof (cases "numbers_to_words cfg")
    case True
    with x have "x \<in> set (numbers_to_words_text t2)" by (simp add: t3_def)
    then consider "x \<in> set digit_word_chars" | "x \<in> set t2 \<and> NUMBER_WORDS x = None"
      using numbers_to_words_chars by blast
    then show ?thesis
    proof cases
      case 1
      then show ?thesis by (simp add: digit_word_char_facts)
    next
      case 2
      with q2 show ?thesis by simp
    qed
  next
    case False
    with x q2 show ?thesis by (simp add: t3_def)
  qed
  have q4: "(if lowercase cfg then lower_char x = x else True)
            \<and> (if numbers_to_words cfg then NUMBER_WORDS x = None else True)
            \<and> (if remove_punctuation cfg then is_word_char x \<or> is_space x \<or> x = apostrophe
                else True)"
    if x: "x \<in> set t4" for x
  proof (cases "remove_punctuation cfg")
    case True
    with x have "x \<in> set (remove_apostrophes (sweep_punctuation t3))"
      by (simp add: t4_def remove_punctuation_text_def)
    then have "x \<in> set (sweep_punctuation t3) \<or> x = CHR '' ''"
      by (rule set_remove_apostrophes)
    then consider "x = CHR '' ''"
      | "x \<in> set t3 \<and> (is_word_char x \<or> is_space x \<or> x = apostrophe)"
      using sweep_punctuation_chars by blast
    then show ?thesis
    proof cases
      case 1
      then show ?thesis by (simp add: space_facts is_space_space)
    next
      case 2
      with q3 [of x] show ?thesis by simp
    qed
  next
    case False
    with x q3 [of x] show ?thesis by (simp add: t4_def)
  qed
  have n: "normalize_text cfg s
             = (if collapse_whitespace cfg then strip (collapse_ws t4) else t4)"
    unfolding normalize_text_def Let_def using ne
    by (simp only: t1_def [symmetric] t2_def [symmetric] t3_def [symmetric]
          t4_def [symmetric] if_False)
  show ?thesis
  proof (cases "collapse_whitespace cfg")
    case True
    with n assms have "c \<in> set (collapse_ws t4)"
      by (auto dest: set_strip)
    then have "c \<in> set t4 \<or> c = CHR '' ''" by (rule set_collapse_ws)
    then show ?thesis
    proof
      assume "c \<in> set t4"
      then show ?thesis by (rule q4)
    next
      assume "c = CHR '' ''"
      then show ?thesis by (simp add: space_facts is_space_space)
    qed
  next
    case False
    with n assms have "c \<in> set t4" by simp
    then show ?thesis by (rule q4)
  qed
qed

lemma normalize_text_shape:
  assumes "collapse_whitespace cfg"
  shows "collapsed (normalize_text cfg s) \<and> strip (normalize_text cfg s) = normalize_text cfg s"
  using assms
  by (simp add: normalize_text_def Let_def collapsed_strip collapsed_collapse_ws strip_strip
        strip_Nil)

lemma normalize_text_fixed:
  assumes "\<forall>c\<in>set t. settled cfg c"
    and "collapse_whitespace cfg \<Longrightarrow> collapsed t \<and> strip t = t"
  shows "normalize_text cfg t = t"
proof (cases "t = []")
  case True
  then show ?thesis by (simp add: normalize_text_def)
next
  case False
  from assms(1) have a: "apostrophe \<notin> set t"
    by (auto simp: settled_def)
  have t1: "(if lowercase cfg then lower t else t) = t"
    using assms(1) by (auto simp: settled_def intro!: lower_fixed split: if_splits)
  have t2: "(if expand_contractions cfg then expand_contractions_text t else t) = t"
    using a by (simp add: expand_contractions_absent)
  have t3: "(if numbers_to_words cfg then numbers_to_words_text t else t) = t"
    using assms(1) by (auto simp: settled_def intro!: numbers_to_words_fixed split: if_splits)
  have "remove_punctuation cfg \<Longrightarrow> sweep_punctuation t = t"
    using assms(1) by (auto simp: settled_def intro!: sweep_punctuation_fixed split: if_splits)
  then have t4: "(if remove_punctuation cfg then remove_punctuation_text t else t) = t"
    using a by (simp add: remove_punctuation_text_def remove_apostrophes_absent)
  have t5: "(if collapse_whitespace cfg then strip (collapse_ws t) else t) = t"
    using assms(2) by (simp add: collapsed_fixpoint)
  show ?thesis
    unfolding normalize_text_def Let_def using False
    by (simp only: t1 t2 t3 t4 t5 if_False)
qed

text \<open>
  Claim C4, as the source has it. \<open>normalize\<close> is a function of the text and the
  configuration alone, and whenever its result holds no apostrophe it is idempotent, for
  every configuration: normalizing the result again changes nothing.
\<close>

theorem normalize_idempotent_without_apostrophes:
  assumes "apostrophe \<notin> set (normalize_text cfg s)"
  shows "normalize_text cfg (normalize_text cfg s) = normalize_text cfg s"
proof (rule normalize_text_fixed)
  show "\<forall>c\<in>set (normalize_text cfg s). settled cfg c"
  proof
    fix c assume c: "c \<in> set (normalize_text cfg s)"
    with assms have "c \<noteq> apostrophe" by auto
    with normalize_text_chars [OF c] show "settled cfg c"
      by (auto simp: settled_def split: if_splits)
  qed
next
  assume "collapse_whitespace cfg"
  then show "collapsed (normalize_text cfg s)
             \<and> strip (normalize_text cfg s) = normalize_text cfg s"
    by (rule normalize_text_shape)
qed

theorem normalize_idempotent_without_apostrophes_witness:
  "apostrophe \<notin> set (normalize_text default_normalizer example_text)
   \<and> normalize_text default_normalizer (normalize_text default_normalizer example_text)
       = normalize_text default_normalizer example_text
   \<and> normalize_text default_normalizer example_text = ''hello world it is 123''"
proof -
  have n: "normalize_text default_normalizer example_text = ''hello world it is 123''"
    by code_simp
  have "apostrophe \<notin> set ''hello world it is 123''"
    by code_simp
  then have a: "apostrophe \<notin> set (normalize_text default_normalizer example_text)"
    unfolding n .
  from normalize_idempotent_without_apostrophes [OF a] a n show ?thesis
    by blast
qed

text \<open>
  When the first result keeps an apostrophe the second pass can change the text again.
  With the default
  configuration \<open>a' 'b\<close> becomes \<open>a 'b\<close>, which becomes \<open>a b\<close>. With
  \<open>numbers_to_words\<close> on, \<open>n'2\<close> becomes \<open>n'two\<close>, in which the second pass finds
  the contraction \<open>n't\<close>: the digits are spelled out after the contractions are
  expanded.
\<close>

theorem normalize_idempotent_counterexample:
  "normalize_text default_normalizer apostrophes_text = ''a '' @ [apostrophe] @ ''b''
   \<and> normalize_text default_normalizer (normalize_text default_normalizer apostrophes_text)
       = ''a b''
   \<and> normalize_text default_normalizer (normalize_text default_normalizer apostrophes_text)
       \<noteq> normalize_text default_normalizer apostrophes_text
   \<and> normalize_text (default_normalizer\<lparr>numbers_to_words := True\<rparr>)
         (''n'' @ [apostrophe] @ ''2'')
       = ''n'' @ [apostrophe] @ ''two''
   \<and> normalize_text (default_normalizer\<lparr>numbers_to_words := True\<rparr>)
         (''n'' @ [apostrophe] @ ''two'')
       = ''notwo''"
  by code_simp

end
